theory Spec2Isabelle
  imports Main "HOL-Library.Multiset"
begin

section \<open>Shared primitives: pointers, callbacks, failures, the invocation trace\<close>

text \<open>
  The three timer queues of the repository (\<^verbatim>\<open>lst_timer.hpp\<close>, and the binary heap and the
  time wheel of \<^verbatim>\<open>time_heap_timer.hpp\<close>) keep their timers in objects allocated with
  \<^verbatim>\<open>new\<close> and linked by raw pointers. A pointer is modelled as an optional address
  (\<open>None\<close> is \<^verbatim>\<open>nullptr\<close>), the free store as a partial map from addresses to timer
  objects (\<^verbatim>\<open>delete\<close> removes the address from the map), and C++ \<^verbatim>\<open>int\<close> and
  \<^verbatim>\<open>time_t\<close> values as mathematical integers (no claim treated here reaches the
  range where they overflow).

  What C++ leaves undefined is a failure value of the model: dereferencing a null pointer,
  touching a deleted object, indexing an array out of range, calling through a null or
  never-assigned function pointer. The \<^verbatim>\<open>throw std::exception()\<close> of the heap is the
  failure \<open>Exception\<close>.
\<close>

type_synonym addr = nat
type_synonym ptr = "addr option"

datatype error = Exception | NullDeref | UseAfterFree | OutOfBounds | BadCall

text \<open>
  The field \<^verbatim>\<open>void (*cb_func)(client_data*)\<close>. No constructor of the three timer
  classes initialises it, so it has three states: never assigned, assigned
  \<^verbatim>\<open>nullptr\<close>, or assigned a function (named by a number).
\<close>

datatype callback = Unset | Null | Func nat

text \<open>
  A callback is code of the host; all the queue does is call it with the timer's
  \<^verbatim>\<open>user_data\<close>. The model records each call in a trace, together with the address of
  the timer whose callback ran. Callbacks that re-enter the queue are outside the model.
\<close>

datatype event = Invoke (ev_timer: addr) (ev_func: nat) (ev_arg: nat)

definition rd :: "'a list \<Rightarrow> int \<Rightarrow> error + 'a" where
  "rd xs i = (if 0 \<le> i \<and> i < int (length xs) then Inr (xs ! nat i) else Inl OutOfBounds)"

definition wr :: "'a list \<Rightarrow> int \<Rightarrow> 'a \<Rightarrow> error + 'a list" where
  "wr xs i v = (if 0 \<le> i \<and> i < int (length xs) then Inr (xs[nat i := v]) else Inl OutOfBounds)"

definition deref :: "(addr \<Rightarrow> 'a option) \<Rightarrow> ptr \<Rightarrow> error + 'a" where
  "deref m p = (case p of None \<Rightarrow> Inl NullDeref
                | Some a \<Rightarrow> (case m a of None \<Rightarrow> Inl UseAfterFree | Some t \<Rightarrow> Inr t))"

text \<open>A write to a field of the object that \<open>p\<close> points to.\<close>

definition upd :: "(addr \<Rightarrow> 'a option) \<Rightarrow> ptr \<Rightarrow> ('a \<Rightarrow> 'a) \<Rightarrow> error + (addr \<Rightarrow> 'a option)" where
  "upd m p f = (case p of None \<Rightarrow> Inl NullDeref
                | Some a \<Rightarrow> (case m a of None \<Rightarrow> Inl UseAfterFree | Some t \<Rightarrow> Inr (m(a \<mapsto> f t))))"

text \<open>A sequence of such writes, in program order.\<close>

fun upds :: "(addr \<Rightarrow> 'a option) \<Rightarrow> (ptr \<times> ('a \<Rightarrow> 'a)) list \<Rightarrow> error + (addr \<Rightarrow> 'a option)" where
  "upds m [] = Inr m"
| "upds m ((p, f) # ws) = (case upd m p f of Inl e \<Rightarrow> Inl e | Inr m' \<Rightarrow> upds m' ws)"

text \<open>\<^verbatim>\<open>delete p\<close> for a pointer that is not null.\<close>

definition free :: "(addr \<Rightarrow> 'a option) \<Rightarrow> addr \<Rightarrow> error + (addr \<Rightarrow> 'a option)" where
  "free m a = (case m a of None \<Rightarrow> Inl UseAfterFree | Some t \<Rightarrow> Inr (m(a := None)))"

section \<open>The hashed time wheel (\<^verbatim>\<open>time_wheel\<close>)\<close>

record tw_timer =
  rotation :: int
  time_slot :: int
  tw_cb_func :: callback
  tw_user_data :: nat
  tw_next :: ptr
  tw_prev :: ptr

text \<open>
  The object \<^verbatim>\<open>time_wheel\<close> has the members \<open>slots\<close> and \<open>cur_slot\<close>; the model adds
  the free store of \<^verbatim>\<open>tw_timer\<close> objects, the next address \<^verbatim>\<open>new\<close> hands out
  (addresses are not reused) and the trace of callback invocations.
\<close>

record time_wheel =
  slots :: "ptr list"
  cur_slot :: int
  tw_mem :: "addr \<Rightarrow> tw_timer option"
  tw_fresh :: addr
  tw_fired :: "event list"

definition N :: int where "N = 60"
definition SI :: int where "SI = 1"

definition time_wheel_new :: time_wheel where
  "time_wheel_new =
     \<lparr>slots = replicate (nat N) None, cur_slot = 0, tw_mem = (\<lambda>_. None), tw_fresh = 0,
      tw_fired = []\<rparr>"

text \<open>
  The arithmetic of \<^verbatim>\<open>time_wheel::add_timer\<close> (past its guard \<^verbatim>\<open>timeout < 0\<close>):
  \<^verbatim>\<open>ticks\<close>, then \<^verbatim>\<open>rotation = ticks / N\<close> and
  \<^verbatim>\<open>ts = (cur_slot + (ticks % N))\<close>. The operands are non-negative there, so C++'s
  truncating \<^verbatim>\<open>/\<close> and \<^verbatim>\<open>%\<close> are \<open>div\<close> and \<open>mod\<close>.
\<close>

definition wheel_ticks :: "int \<Rightarrow> int" where
  "wheel_ticks timeout = (if timeout < SI then 1 else timeout div SI)"

definition wheel_position :: "int \<Rightarrow> int \<Rightarrow> int \<times> int" where
  "wheel_position cs timeout =
     (let ticks = wheel_ticks timeout;
          rotation = ticks div N;
          ts = cs + (ticks mod N)
      in (rotation, ts))"

definition tw_timer_new :: "int \<Rightarrow> int \<Rightarrow> tw_timer" where
  "tw_timer_new rot ts =
     \<lparr>rotation = rot, time_slot = ts, tw_cb_func = Unset, tw_user_data = 0,
      tw_next = None, tw_prev = None\<rparr>"

definition wheel_add_timer :: "int \<Rightarrow> time_wheel \<Rightarrow> error + (ptr \<times> time_wheel)" where
  "wheel_add_timer timeout w =
     (if timeout < 0 then Inr (None, w)
      else
        (case wheel_position (cur_slot w) timeout of (rot, ts) \<Rightarrow>
           let timer = tw_fresh w;
               w1 = w\<lparr>tw_mem := (tw_mem w)(timer \<mapsto> tw_timer_new rot ts),
                      tw_fresh := Suc timer\<rparr>
           in (case rd (slots w1) ts of
                 Inl e \<Rightarrow> Inl e
               | Inr None \<Rightarrow> Inr (Some timer, w1\<lparr>slots := (slots w1)[nat ts := Some timer]\<rparr>)
               | Inr (Some hd_a) \<Rightarrow>
                   (case tw_mem w1 hd_a of
                      None \<Rightarrow> Inl UseAfterFree
                    | Some hd_t \<Rightarrow>
                        Inr (Some timer,
                             w1\<lparr>tw_mem := (tw_mem w1)
                                   (timer \<mapsto> (tw_timer_new rot ts)\<lparr>tw_next := Some hd_a\<rparr>,
                                    hd_a \<mapsto> hd_t\<lparr>tw_prev := Some timer\<rparr>),
                                slots := (slots w1)[nat ts := Some timer]\<rparr>)))))"

text \<open>
  The host fills in the callback and its argument through the handle that
  \<^verbatim>\<open>add_timer\<close> returned (\<^verbatim>\<open>timer->cb_func = f; timer->user_data = d;\<close>).
\<close>

definition tw_set_cb :: "ptr \<Rightarrow> callback \<Rightarrow> nat \<Rightarrow> time_wheel \<Rightarrow> error + time_wheel" where
  "tw_set_cb timer f d w =
     (case upd (tw_mem w) timer (\<lambda>t. t\<lparr>tw_cb_func := f, tw_user_data := d\<rparr>) of
        Inl e \<Rightarrow> Inl e
      | Inr m \<Rightarrow> Inr (w\<lparr>tw_mem := m\<rparr>))"

text \<open>
  The statements \<^verbatim>\<open>timer->prev->next = timer->next; if(timer->next) timer->next->prev = timer->prev;\<close>
  that \<^verbatim>\<open>del_timer\<close> and \<^verbatim>\<open>tick\<close> both run on a timer that is not the head of its
  slot. Every field is read from the store as it is at that statement.
\<close>

definition tw_unlink :: "addr \<Rightarrow> (addr \<Rightarrow> tw_timer option) \<Rightarrow> error + (addr \<Rightarrow> tw_timer option)" where
  "tw_unlink a m =
     (case m a of
        None \<Rightarrow> Inl UseAfterFree
      | Some t \<Rightarrow>
          (case upd m (tw_prev t) (\<lambda>x. x\<lparr>tw_next := tw_next t\<rparr>) of
             Inl e \<Rightarrow> Inl e
           | Inr m1 \<Rightarrow>
               (case m1 a of
                  None \<Rightarrow> Inl UseAfterFree
                | Some t1 \<Rightarrow>
                    (case tw_next t1 of
                       None \<Rightarrow> Inr m1
                     | Some n \<Rightarrow> upd m1 (Some n) (\<lambda>x. x\<lparr>tw_prev := tw_prev t1\<rparr>)))))"

definition wheel_del_timer :: "ptr \<Rightarrow> time_wheel \<Rightarrow> error + time_wheel" where
  "wheel_del_timer timer w =
     (case timer of
        None \<Rightarrow> Inr w
      | Some a \<Rightarrow>
          (case tw_mem w a of
             None \<Rightarrow> Inl UseAfterFree
           | Some t \<Rightarrow>
               (case rd (slots w) (time_slot t) of
                  Inl e \<Rightarrow> Inl e
                | Inr hd_p \<Rightarrow>
                    if timer = hd_p then
                      (let slots1 = (slots w)[nat (time_slot t) := tw_next t] in
                       case tw_next t of
                         None \<Rightarrow> Inr (w\<lparr>slots := slots1, tw_mem := (tw_mem w)(a := None)\<rparr>)
                       | Some n \<Rightarrow>
                           (case upd (tw_mem w) (Some n) (\<lambda>x. x\<lparr>tw_prev := None\<rparr>) of
                              Inl e \<Rightarrow> Inl e
                            | Inr m1 \<Rightarrow> Inr (w\<lparr>slots := slots1, tw_mem := m1(a := None)\<rparr>)))
                    else
                      (case tw_unlink a (tw_mem w) of
                         Inl e \<Rightarrow> Inl e
                       | Inr m2 \<Rightarrow> Inr (w\<lparr>tw_mem := m2(a := None)\<rparr>)))))"

text \<open>
  The \<^verbatim>\<open>while(tmp)\<close> loop of \<^verbatim>\<open>time_wheel::tick\<close>. It follows \<^verbatim>\<open>next\<close> pointers,
  so on a cyclic chain of timers with positive rotation it would not return: the result
  \<open>None\<close> stands for that.
\<close>

partial_function (option) wheel_tick_loop :: "ptr \<Rightarrow> time_wheel \<Rightarrow> (error + time_wheel) option" where
  "wheel_tick_loop tmp w =
     (case tmp of
        None \<Rightarrow> Some (Inr w)
      | Some a \<Rightarrow>
          (case tw_mem w a of
             None \<Rightarrow> Some (Inl UseAfterFree)
           | Some t \<Rightarrow>
               if rotation t > 0 then
                 wheel_tick_loop (tw_next t)
                   (w\<lparr>tw_mem := (tw_mem w)(a \<mapsto> t\<lparr>rotation := rotation t - 1\<rparr>)\<rparr>)
               else
                 (case tw_cb_func t of
                    Func f \<Rightarrow>
                      (let w1 = w\<lparr>tw_fired := tw_fired w @ [Invoke a f (tw_user_data t)]\<rparr> in
                       case rd (slots w1) (cur_slot w1) of
                         Inl e \<Rightarrow> Some (Inl e)
                       | Inr hd_p \<Rightarrow>
                           if tmp = hd_p then
                             (let w2 = w1\<lparr>slots := (slots w1)[nat (cur_slot w1) := tw_next t],
                                          tw_mem := (tw_mem w1)(a := None)\<rparr> in
                              case tw_next t of
                                None \<Rightarrow> wheel_tick_loop None w2
                              | Some n \<Rightarrow>
                                  (case upd (tw_mem w2) (Some n) (\<lambda>x. x\<lparr>tw_prev := None\<rparr>) of
                                     Inl e \<Rightarrow> Some (Inl e)
                                   | Inr m1 \<Rightarrow> wheel_tick_loop (Some n) (w2\<lparr>tw_mem := m1\<rparr>)))
                           else
                             (case tw_unlink a (tw_mem w1) of
                                Inl e \<Rightarrow> Some (Inl e)
                              | Inr m2 \<Rightarrow>
                                  (case m2 a of
                                     None \<Rightarrow> Some (Inl UseAfterFree)
                                   | Some t2 \<Rightarrow>
                                       wheel_tick_loop (tw_next t2)
                                         (w1\<lparr>tw_mem := m2(a := None)\<rparr>))))
                  | _ \<Rightarrow> Some (Inl BadCall))))"

definition wheel_tick :: "time_wheel \<Rightarrow> (error + time_wheel) option" where
  "wheel_tick w =
     (case rd (slots w) (cur_slot w) of
        Inl e \<Rightarrow> Some (Inl e)
      | Inr tmp \<Rightarrow>
          (case wheel_tick_loop tmp w of
             None \<Rightarrow> None
           | Some (Inl e) \<Rightarrow> Some (Inl e)
           | Some (Inr w') \<Rightarrow> Some (Inr (w'\<lparr>cur_slot := (cur_slot w' + 1) mod N\<rparr>))))"

text \<open>\<open>n\<close> calls of \<^verbatim>\<open>tick\<close> in a row, stopping at the first failure.\<close>

fun wheel_tick_n :: "nat \<Rightarrow> time_wheel \<Rightarrow> (error + time_wheel) option" where
  "wheel_tick_n 0 w = Some (Inr w)"
| "wheel_tick_n (Suc n) w =
     (case wheel_tick w of
        None \<Rightarrow> None
      | Some (Inl e) \<Rightarrow> Some (Inl e)
      | Some (Inr w') \<Rightarrow> wheel_tick_n n w')"

section \<open>The binary heap (\<^verbatim>\<open>time_heap\<close>)\<close>

record heap_timer =
  ht_expire :: int
  ht_cb_func :: callback
  ht_user_data :: nat

text \<open>
  The object \<^verbatim>\<open>time_heap\<close> has the members \<open>array\<close> (an array of \<open>capacity\<close> pointers),
  \<open>capacity\<close> and \<open>cur_size\<close>; the model adds the free store of \<^verbatim>\<open>heap_timer\<close>
  objects, the next address \<^verbatim>\<open>new\<close> hands out and the trace of callback invocations.
\<close>

record time_heap =
  array :: "ptr list"
  capacity :: int
  cur_size :: int
  ht_mem :: "addr \<Rightarrow> heap_timer option"
  ht_fresh :: addr
  ht_fired :: "event list"

text \<open>
  The constructor \<^verbatim>\<open>time_heap(int cap)\<close>. A negative length makes \<^verbatim>\<open>new[]\<close> throw.
\<close>

definition time_heap_new :: "int \<Rightarrow> error + time_heap" where
  "time_heap_new cap =
     (if cap < 0 then Inl Exception
      else Inr \<lparr>array = replicate (nat cap) None, capacity = cap, cur_size = 0,
                ht_mem = (\<lambda>_. None), ht_fresh = 0, ht_fired = []\<rparr>)"

text \<open>
  The host's \<^verbatim>\<open>new heap_timer(delay)\<close> followed by its assignments to
  \<^verbatim>\<open>cb_func\<close> and \<^verbatim>\<open>user_data\<close>; \<open>e\<close> is the value of \<^verbatim>\<open>time(NULL) + delay\<close>.
\<close>

definition heap_timer_new :: "int \<Rightarrow> callback \<Rightarrow> nat \<Rightarrow> time_heap \<Rightarrow> ptr \<times> time_heap" where
  "heap_timer_new e f d h =
     (Some (ht_fresh h),
      h\<lparr>ht_mem := (ht_mem h)(ht_fresh h \<mapsto> \<lparr>ht_expire = e, ht_cb_func = f, ht_user_data = d\<rparr>),
        ht_fresh := Suc (ht_fresh h)\<rparr>)"

text \<open>The loop \<^verbatim>\<open>for(int i = 0; i < cur_size; ++i) temp[i] = array[i];\<close> of \<^verbatim>\<open>resize\<close>.\<close>

function resize_copy :: "int \<Rightarrow> int \<Rightarrow> ptr list \<Rightarrow> ptr list \<Rightarrow> error + ptr list" where
  "resize_copy i n src temp =
     (if i < n then
        (case rd src i of
           Inl e \<Rightarrow> Inl e
         | Inr p \<Rightarrow>
             (case wr temp i p of
                Inl e \<Rightarrow> Inl e
              | Inr temp' \<Rightarrow> resize_copy (i + 1) n src temp'))
      else Inr temp)"
  by pat_completeness auto
termination
  by (relation "measure (\<lambda>(i, n, src, temp). nat (n - i))") auto

declare resize_copy.simps [simp del]

definition resize :: "time_heap \<Rightarrow> error + time_heap" where
  "resize h =
     (case resize_copy 0 (cur_size h) (array h) (replicate (nat (2 * capacity h)) None) of
        Inl e \<Rightarrow> Inl e
      | Inr temp \<Rightarrow> Inr (h\<lparr>capacity := 2 * capacity h, array := temp\<rparr>))"

text \<open>
  The sift-up loop of \<^verbatim>\<open>add_timer\<close>:
  \<^verbatim>\<open>for(; hole > 0; hole = parent)\<close>, returning the final \<open>hole\<close>.
\<close>

function sift_up :: "ptr \<Rightarrow> int \<Rightarrow> time_heap \<Rightarrow> error + (int \<times> time_heap)" where
  "sift_up timer hole h =
     (if hole > 0 then
        (let parent = (hole - 1) div 2 in
         case rd (array h) parent of
           Inl e \<Rightarrow> Inl e
         | Inr pp \<Rightarrow>
             (case deref (ht_mem h) pp of
                Inl e \<Rightarrow> Inl e
              | Inr pt \<Rightarrow>
                  (case deref (ht_mem h) timer of
                     Inl e \<Rightarrow> Inl e
                   | Inr tt \<Rightarrow>
                       if ht_expire pt \<le> ht_expire tt then Inr (hole, h)
                       else
                         (case wr (array h) hole pp of
                            Inl e \<Rightarrow> Inl e
                          | Inr arr \<Rightarrow> sift_up timer parent (h\<lparr>array := arr\<rparr>)))))
      else Inr (hole, h))"
  by pat_completeness auto
termination
  by (relation "measure (\<lambda>(timer, hole, h). nat hole)") auto

declare sift_up.simps [simp del]

definition heap_add_timer :: "ptr \<Rightarrow> time_heap \<Rightarrow> error + time_heap" where
  "heap_add_timer timer h =
     (case timer of
        None \<Rightarrow> Inl Exception
      | Some ta \<Rightarrow>
          (case (if cur_size h \<ge> capacity h then resize h else Inr h) of
             Inl e \<Rightarrow> Inl e
           | Inr h1 \<Rightarrow>
               (case sift_up timer (cur_size h1) (h1\<lparr>cur_size := cur_size h1 + 1\<rparr>) of
                  Inl e \<Rightarrow> Inl e
                | Inr (hole, h2) \<Rightarrow>
                    (case wr (array h2) hole timer of
                       Inl e \<Rightarrow> Inl e
                     | Inr arr \<Rightarrow> Inr (h2\<lparr>array := arr\<rparr>)))))"

definition heap_del_timer :: "ptr \<Rightarrow> time_heap \<Rightarrow> error + time_heap" where
  "heap_del_timer timer h =
     (case timer of
        None \<Rightarrow> Inr h
      | Some ta \<Rightarrow>
          (case upd (ht_mem h) timer (\<lambda>t. t\<lparr>ht_cb_func := Null\<rparr>) of
             Inl e \<Rightarrow> Inl e
           | Inr m \<Rightarrow> Inr (h\<lparr>ht_mem := m\<rparr>)))"

definition heap_empty :: "time_heap \<Rightarrow> bool" where
  "heap_empty h = (0 = cur_size h)"

definition heap_top :: "time_heap \<Rightarrow> error + ptr" where
  "heap_top h = (if heap_empty h then Inr None else rd (array h) 0)"

text \<open>
  The choice of the child in \<^verbatim>\<open>percolate_down\<close>:
  \<^verbatim>\<open>child = hole*2+1; if(child < (cur_size - 1) && array[child + 1]->expire < array[child]->expire) ++child;\<close>
\<close>

definition smaller_child :: "int \<Rightarrow> time_heap \<Rightarrow> error + int" where
  "smaller_child hole h =
     (let child = hole * 2 + 1 in
      if child < cur_size h - 1 then
        (case rd (array h) (child + 1) of
           Inl e \<Rightarrow> Inl e
         | Inr p1 \<Rightarrow>
             (case deref (ht_mem h) p1 of
                Inl e \<Rightarrow> Inl e
              | Inr t1 \<Rightarrow>
                  (case rd (array h) child of
                     Inl e \<Rightarrow> Inl e
                   | Inr p0 \<Rightarrow>
                       (case deref (ht_mem h) p0 of
                          Inl e \<Rightarrow> Inl e
                        | Inr t0 \<Rightarrow>
                            Inr (if ht_expire t1 < ht_expire t0 then child + 1 else child)))))
      else Inr child)"

text \<open>The loop of \<^verbatim>\<open>percolate_down\<close>, returning the final \<open>hole\<close>.\<close>

function percolate_loop :: "ptr \<Rightarrow> int \<Rightarrow> time_heap \<Rightarrow> error + (int \<times> time_heap)" where
  "percolate_loop temp hole h =
     (if hole * 2 + 1 \<le> cur_size h - 1 then
        (case smaller_child hole h of
           Inl e \<Rightarrow> Inl e
         | Inr child \<Rightarrow>
             (case rd (array h) child of
                Inl e \<Rightarrow> Inl e
              | Inr cp \<Rightarrow>
                  (case deref (ht_mem h) cp of
                     Inl e \<Rightarrow> Inl e
                   | Inr ct \<Rightarrow>
                       (case deref (ht_mem h) temp of
                          Inl e \<Rightarrow> Inl e
                        | Inr tt \<Rightarrow>
                            if ht_expire ct < ht_expire tt then
                              (case wr (array h) hole cp of
                                 Inl e \<Rightarrow> Inl e
                               | Inr arr \<Rightarrow> percolate_loop temp child (h\<lparr>array := arr\<rparr>))
                            else Inr (hole, h)))))
      else Inr (hole, h))"
  by pat_completeness auto
termination
proof (relation "measure (\<lambda>(temp, hole, h). nat (cur_size h - hole))")
  show "wf (measure (\<lambda>(temp, hole, h). nat (cur_size h - hole)))"
    by simp
next
  fix temp :: ptr and hole :: int and h :: time_heap and child cp ct tt arr
  assume le: "hole * 2 + 1 \<le> cur_size h - 1"
    and sc: "smaller_child hole h = Inr child"
    and rdc: "rd (array h) child = Inr cp"
  from sc have "child = hole * 2 + 1 \<or> (child = hole * 2 + 2 \<and> 0 \<le> hole * 2 + 1)"
    by (auto simp: smaller_child_def Let_def rd_def split: if_splits sum.splits)
  moreover from rdc have "0 \<le> child"
    by (simp add: rd_def split: if_splits)
  ultimately have "hole < child" and "0 \<le> hole"
    by auto
  with le show "((temp, child, h\<lparr>array := arr\<rparr>), (temp, hole, h))
        \<in> measure (\<lambda>(temp, hole, h). nat (cur_size h - hole))"
    by simp
qed

declare percolate_loop.simps [simp del]

definition percolate_down :: "int \<Rightarrow> time_heap \<Rightarrow> error + time_heap" where
  "percolate_down hole h =
     (case rd (array h) hole of
        Inl e \<Rightarrow> Inl e
      | Inr temp \<Rightarrow>
          (case percolate_loop temp hole h of
             Inl e \<Rightarrow> Inl e
           | Inr (hole', h1) \<Rightarrow>
               (case wr (array h1) hole' temp of
                  Inl e \<Rightarrow> Inl e
                | Inr arr \<Rightarrow> Inr (h1\<lparr>array := arr\<rparr>))))"

text \<open>
  \<^verbatim>\<open>pop_timer\<close>: \<^verbatim>\<open>delete array[0]; array[0] = array[--cur_size]; percolate_down(0);\<close>
  when the heap is not empty and \<^verbatim>\<open>array[0]\<close> is not null.
\<close>

definition heap_pop_timer :: "time_heap \<Rightarrow> error + time_heap" where
  "heap_pop_timer h =
     (if heap_empty h then Inr h
      else
        (case rd (array h) 0 of
           Inl e \<Rightarrow> Inl e
         | Inr None \<Rightarrow> Inr h
         | Inr (Some a) \<Rightarrow>
             (case ht_mem h a of
                None \<Rightarrow> Inl UseAfterFree
              | Some t \<Rightarrow>
                  (let h1 = h\<lparr>ht_mem := (ht_mem h)(a := None), cur_size := cur_size h - 1\<rparr> in
                   case rd (array h1) (cur_size h1) of
                     Inl e \<Rightarrow> Inl e
                   | Inr lastp \<Rightarrow>
                       (case wr (array h1) 0 lastp of
                          Inl e \<Rightarrow> Inl e
                        | Inr arr \<Rightarrow> percolate_down 0 (h1\<lparr>array := arr\<rparr>))))))"

text \<open>
  One pass of the body of the \<^verbatim>\<open>while(!empty())\<close> loop of \<^verbatim>\<open>time_heap::tick\<close>, past
  its two \<^verbatim>\<open>break\<close>s: the call of the callback of \<^verbatim>\<open>array[0]\<close> when it is not null,
  then \<^verbatim>\<open>pop_timer()\<close>.
\<close>

definition heap_fire_top :: "time_heap \<Rightarrow> error + time_heap" where
  "heap_fire_top h =
     (case rd (array h) 0 of
        Inl e \<Rightarrow> Inl e
      | Inr p0 \<Rightarrow>
          (case p0 of
             None \<Rightarrow> Inl NullDeref
           | Some a0 \<Rightarrow>
               (case ht_mem h a0 of
                  None \<Rightarrow> Inl UseAfterFree
                | Some t0 \<Rightarrow>
                    (case ht_cb_func t0 of
                       Unset \<Rightarrow> Inl BadCall
                     | Null \<Rightarrow> heap_pop_timer h
                     | Func f \<Rightarrow>
                         heap_pop_timer
                           (h\<lparr>ht_fired := ht_fired h @ [Invoke a0 f (ht_user_data t0)]\<rparr>)))))"

text \<open>
  The loop of \<^verbatim>\<open>time_heap::tick\<close>; \<open>cur\<close> is the value of \<^verbatim>\<open>time(NULL)\<close> and
  \<open>tmp\<close> the local variable of that name.
\<close>

function heap_tick_loop :: "int \<Rightarrow> ptr \<Rightarrow> time_heap \<Rightarrow> error + time_heap" where
  "heap_tick_loop cur tmp h =
     (if heap_empty h then Inr h
      else
        (case tmp of
           None \<Rightarrow> Inr h
         | Some ta \<Rightarrow>
             (case ht_mem h ta of
                None \<Rightarrow> Inl UseAfterFree
              | Some tt \<Rightarrow>
                  if ht_expire tt > cur then Inr h
                  else
                    (case heap_fire_top h of
                       Inl e \<Rightarrow> Inl e
                     | Inr h1 \<Rightarrow>
                         (case rd (array h1) 0 of
                            Inl e \<Rightarrow> Inl e
                          | Inr tmp' \<Rightarrow> heap_tick_loop cur tmp' h1)))))"
  by pat_completeness auto
termination
proof (relation "measure (\<lambda>(cur, tmp, h). nat (cur_size h))")
  show "wf (measure (\<lambda>(cur, tmp, h). nat (cur_size h)))"
    by simp
next
  fix cur :: int and tmp :: ptr and h h1 :: time_heap and ta tt tmp'
  assume ne: "\<not> heap_empty h" and fire: "heap_fire_top h = Inr h1"
  have loop: "percolate_loop temp hole g = Inr r \<Longrightarrow> cur_size (snd r) = cur_size g"
    for temp hole g r
  proof (induction temp hole g rule: percolate_loop.induct)
    case (1 temp hole g)
    show ?case
    proof (cases "hole * 2 + 1 \<le> cur_size g - 1")
      case False
      with "1.prems" show ?thesis by (auto simp: percolate_loop.simps [of temp hole g])
    next
      case True
      with "1.prems" "1.IH" show ?thesis
        by (auto simp: percolate_loop.simps [of temp hole g] wr_def split: sum.splits if_splits)
    qed
  qed
  have down: "cur_size g' = cur_size g" if "percolate_down hole g = Inr g'" for hole g g'
  proof -
    from that obtain temp hole' g1 arr where
      l: "percolate_loop temp hole g = Inr (hole', g1)" and g': "g' = g1\<lparr>array := arr\<rparr>"
      by (auto simp: percolate_down_def split: sum.splits)
    from loop [OF l] g' show ?thesis by simp
  qed
  have pop: "cur_size g' = cur_size g - 1 \<and> 0 \<le> cur_size g - 1"
    if p: "heap_pop_timer g = Inr g'" and ne: "cur_size g \<noteq> 0"
      and r0: "rd (array g) 0 = Inr (Some a)" and live: "ht_mem g a = Some t" for g g' a t
  proof -
    let ?g1 = "g\<lparr>ht_mem := (ht_mem g)(a := None), cur_size := cur_size g - 1\<rparr>"
    from p ne r0 live obtain lastp arr where
      rl: "rd (array g) (cur_size g - 1) = Inr lastp"
      and d: "percolate_down 0 (?g1\<lparr>array := arr\<rparr>) = Inr g'"
      by (auto simp: heap_pop_timer_def heap_empty_def Let_def split: sum.splits)
    from down [OF d] have "cur_size g' = cur_size g - 1" by simp
    moreover from rl have "0 \<le> cur_size g - 1" by (simp add: rd_def split: if_splits)
    ultimately show ?thesis by simp
  qed
  from ne have ne': "cur_size h \<noteq> 0" by (simp add: heap_empty_def)
  from fire obtain a0 t0 g where r0: "rd (array h) 0 = Inr (Some a0)"
    and live: "ht_mem h a0 = Some t0" and p: "heap_pop_timer g = Inr h1"
    and g: "array g = array h" "cur_size g = cur_size h" "ht_mem g = ht_mem h"
    by (auto simp: heap_fire_top_def split: sum.splits option.splits callback.splits)
  from pop [OF p] ne' r0 live g have "cur_size h1 = cur_size h - 1 \<and> 0 \<le> cur_size h - 1"
    by simp
  then show "((cur, tmp', h1), (cur, tmp, h)) \<in> measure (\<lambda>(cur, tmp, h). nat (cur_size h))"
    by simp
qed

declare heap_tick_loop.simps [simp del]

definition heap_tick :: "int \<Rightarrow> time_heap \<Rightarrow> error + time_heap" where
  "heap_tick cur h =
     (case rd (array h) 0 of
        Inl e \<Rightarrow> Inl e
      | Inr tmp \<Rightarrow> heap_tick_loop cur tmp h)"

section \<open>The sorted list (\<^verbatim>\<open>sort_timer_lst\<close>)\<close>

record util_timer =
  ut_expire :: int
  ut_cb_func :: callback
  ut_user_data :: nat
  ut_prev :: ptr
  ut_next :: ptr

text \<open>
  The object \<^verbatim>\<open>sort_timer_lst\<close> has the members \<open>head\<close> and \<open>tail\<close>; the model adds
  the free store of \<^verbatim>\<open>util_timer\<close> objects, the next address \<^verbatim>\<open>new\<close> hands
  out and the trace of callback invocations.
\<close>

record sort_timer_lst =
  head :: ptr
  tail :: ptr
  ut_mem :: "addr \<Rightarrow> util_timer option"
  ut_fresh :: addr
  ut_fired :: "event list"

definition sort_timer_lst_new :: sort_timer_lst where
  "sort_timer_lst_new =
     \<lparr>head = None, tail = None, ut_mem = (\<lambda>_. None), ut_fresh = 0, ut_fired = []\<rparr>"

text \<open>
  The host's \<^verbatim>\<open>new util_timer\<close> (the constructor nulls \<^verbatim>\<open>prev\<close> and
  \<^verbatim>\<open>next\<close>) followed by its assignments to \<^verbatim>\<open>expire\<close>, \<^verbatim>\<open>cb_func\<close> and
  \<^verbatim>\<open>user_data\<close>.
\<close>

definition util_timer_new :: "int \<Rightarrow> callback \<Rightarrow> nat \<Rightarrow> sort_timer_lst \<Rightarrow> ptr \<times> sort_timer_lst" where
  "util_timer_new e f d l =
     (Some (ut_fresh l),
      l\<lparr>ut_mem := (ut_mem l)(ut_fresh l \<mapsto>
           \<lparr>ut_expire = e, ut_cb_func = f, ut_user_data = d, ut_prev = None, ut_next = None\<rparr>),
        ut_fresh := Suc (ut_fresh l)\<rparr>)"

text \<open>The host's assignment \<^verbatim>\<open>timer->expire = e\<close> through a handle.\<close>

definition ut_set_expire :: "ptr \<Rightarrow> int \<Rightarrow> sort_timer_lst \<Rightarrow> error + sort_timer_lst" where
  "ut_set_expire timer e l =
     (case upd (ut_mem l) timer (\<lambda>t. t\<lparr>ut_expire := e\<rparr>) of
        Inl e \<Rightarrow> Inl e
      | Inr m \<Rightarrow> Inr (l\<lparr>ut_mem := m\<rparr>))"

text \<open>
  The \<^verbatim>\<open>while(tmp)\<close> loop of the private \<^verbatim>\<open>add_timer(timer, lst_head)\<close> together
  with the \<^verbatim>\<open>if(!tmp)\<close> that follows it. The loop follows \<^verbatim>\<open>next\<close> pointers; the
  result \<open>None\<close> stands for a walk that never ends.
\<close>

partial_function (option) lst_insert_loop ::
  "ptr \<Rightarrow> ptr \<Rightarrow> ptr \<Rightarrow> sort_timer_lst \<Rightarrow> (error + sort_timer_lst) option" where
  "lst_insert_loop timer prev tmp l =
     (case tmp of
        None \<Rightarrow>
          Some (case upds (ut_mem l)
                       [(prev, \<lambda>x. x\<lparr>ut_next := timer\<rparr>),
                        (timer, \<lambda>x. x\<lparr>ut_prev := prev\<rparr>),
                        (timer, \<lambda>x. x\<lparr>ut_next := None\<rparr>)] of
                  Inl e \<Rightarrow> Inl e
                | Inr m \<Rightarrow> Inr (l\<lparr>ut_mem := m, tail := timer\<rparr>))
      | Some tmp_a \<Rightarrow>
          (case deref (ut_mem l) timer of
             Inl e \<Rightarrow> Some (Inl e)
           | Inr tt \<Rightarrow>
               (case ut_mem l tmp_a of
                  None \<Rightarrow> Some (Inl UseAfterFree)
                | Some tmp_t \<Rightarrow>
                    if ut_expire tt < ut_expire tmp_t then
                      Some (case upds (ut_mem l)
                                   [(prev, \<lambda>x. x\<lparr>ut_next := timer\<rparr>),
                                    (timer, \<lambda>x. x\<lparr>ut_next := tmp\<rparr>),
                                    (tmp, \<lambda>x. x\<lparr>ut_prev := timer\<rparr>),
                                    (timer, \<lambda>x. x\<lparr>ut_prev := prev\<rparr>)] of
                              Inl e \<Rightarrow> Inl e
                            | Inr m \<Rightarrow> Inr (l\<lparr>ut_mem := m\<rparr>))
                    else lst_insert_loop timer tmp (ut_next tmp_t) l)))"

text \<open>The private overload \<^verbatim>\<open>add_timer(util_timer* timer, util_timer* lst_head)\<close>.\<close>

definition lst_add_timer_from :: "ptr \<Rightarrow> ptr \<Rightarrow> sort_timer_lst \<Rightarrow> (error + sort_timer_lst) option" where
  "lst_add_timer_from timer lst_head l =
     (case deref (ut_mem l) lst_head of
        Inl e \<Rightarrow> Some (Inl e)
      | Inr ht \<Rightarrow> lst_insert_loop timer lst_head (ut_next ht) l)"

definition lst_add_timer :: "ptr \<Rightarrow> sort_timer_lst \<Rightarrow> (error + sort_timer_lst) option" where
  "lst_add_timer timer l =
     (case timer of
        None \<Rightarrow> Some (Inr l)
      | Some ta \<Rightarrow>
          (case head l of
             None \<Rightarrow> Some (Inr (l\<lparr>head := timer, tail := timer\<rparr>))
           | Some ha \<Rightarrow>
               (case deref (ut_mem l) timer of
                  Inl e \<Rightarrow> Some (Inl e)
                | Inr tt \<Rightarrow>
                    (case ut_mem l ha of
                       None \<Rightarrow> Some (Inl UseAfterFree)
                     | Some ht \<Rightarrow>
                         if ut_expire tt < ut_expire ht then
                           Some (case upds (ut_mem l)
                                        [(timer, \<lambda>x. x\<lparr>ut_next := head l\<rparr>),
                                         (head l, \<lambda>x. x\<lparr>ut_prev := timer\<rparr>)] of
                                   Inl e \<Rightarrow> Inl e
                                 | Inr m \<Rightarrow> Inr (l\<lparr>ut_mem := m, head := timer\<rparr>))
                         else lst_add_timer_from timer (head l) l))))"

definition lst_adjust_timer :: "ptr \<Rightarrow> sort_timer_lst \<Rightarrow> (error + sort_timer_lst) option" where
  "lst_adjust_timer timer l =
     (case timer of
        None \<Rightarrow> Some (Inr l)
      | Some ta \<Rightarrow>
          (case ut_mem l ta of
             None \<Rightarrow> Some (Inl UseAfterFree)
           | Some tt \<Rightarrow>
               (case ut_next tt of
                  None \<Rightarrow> Some (Inr l)
                | Some tmp_a \<Rightarrow>
                    (case ut_mem l tmp_a of
                       None \<Rightarrow> Some (Inl UseAfterFree)
                     | Some tmp_t \<Rightarrow>
                         if ut_expire tt < ut_expire tmp_t then Some (Inr l)
                         else if timer = head l then
                           (case upds (ut_mem l)
                                   [(ut_next tt, \<lambda>x. x\<lparr>ut_prev := None\<rparr>),
                                    (timer, \<lambda>x. x\<lparr>ut_next := None\<rparr>)] of
                              Inl e \<Rightarrow> Some (Inl e)
                            | Inr m \<Rightarrow>
                                lst_add_timer_from timer (ut_next tt)
                                  (l\<lparr>head := ut_next tt, ut_mem := m\<rparr>))
                         else
                           (case upd (ut_mem l) (ut_prev tt) (\<lambda>x. x\<lparr>ut_next := ut_next tt\<rparr>) of
                              Inl e \<Rightarrow> Some (Inl e)
                            | Inr m1 \<Rightarrow>
                                (case deref m1 timer of
                                   Inl e \<Rightarrow> Some (Inl e)
                                 | Inr t1 \<Rightarrow>
                                     (case upd m1 (ut_next t1) (\<lambda>x. x\<lparr>ut_prev := ut_prev t1\<rparr>) of
                                        Inl e \<Rightarrow> Some (Inl e)
                                      | Inr m2 \<Rightarrow>
                                          (case deref m2 timer of
                                             Inl e \<Rightarrow> Some (Inl e)
                                           | Inr t2 \<Rightarrow>
                                               lst_add_timer_from timer (ut_next t2)
                                                 (l\<lparr>ut_mem := m2\<rparr>)))))))))"

definition lst_del_timer :: "ptr \<Rightarrow> sort_timer_lst \<Rightarrow> error + sort_timer_lst" where
  "lst_del_timer timer l =
     (case timer of
        None \<Rightarrow> Inr l
      | Some ta \<Rightarrow>
          if timer = head l \<and> timer = tail l then
            (case free (ut_mem l) ta of
               Inl e \<Rightarrow> Inl e
             | Inr m \<Rightarrow> Inr (l\<lparr>ut_mem := m, head := None, tail := None\<rparr>))
          else if timer = head l then
            (case deref (ut_mem l) (head l) of
               Inl e \<Rightarrow> Inl e
             | Inr ht \<Rightarrow>
                 (case upd (ut_mem l) (ut_next ht) (\<lambda>x. x\<lparr>ut_prev := None\<rparr>) of
                    Inl e \<Rightarrow> Inl e
                  | Inr m1 \<Rightarrow>
                      (case free m1 ta of
                         Inl e \<Rightarrow> Inl e
                       | Inr m2 \<Rightarrow> Inr (l\<lparr>head := ut_next ht, ut_mem := m2\<rparr>))))
          else if timer = tail l then
            (case deref (ut_mem l) (tail l) of
               Inl e \<Rightarrow> Inl e
             | Inr tl_t \<Rightarrow>
                 (case upd (ut_mem l) (ut_prev tl_t) (\<lambda>x. x\<lparr>ut_next := None\<rparr>) of
                    Inl e \<Rightarrow> Inl e
                  | Inr m1 \<Rightarrow>
                      (case free m1 ta of
                         Inl e \<Rightarrow> Inl e
                       | Inr m2 \<Rightarrow> Inr (l\<lparr>tail := ut_prev tl_t, ut_mem := m2\<rparr>))))
          else
            (case deref (ut_mem l) timer of
               Inl e \<Rightarrow> Inl e
             | Inr tt \<Rightarrow>
                 (case upd (ut_mem l) (ut_prev tt) (\<lambda>x. x\<lparr>ut_next := ut_next tt\<rparr>) of
                    Inl e \<Rightarrow> Inl e
                  | Inr m1 \<Rightarrow>
                      (case deref m1 timer of
                         Inl e \<Rightarrow> Inl e
                       | Inr t1 \<Rightarrow>
                           (case upd m1 (ut_next t1) (\<lambda>x. x\<lparr>ut_prev := ut_prev t1\<rparr>) of
                              Inl e \<Rightarrow> Inl e
                            | Inr m2 \<Rightarrow>
                                (case free m2 ta of
                                   Inl e \<Rightarrow> Inl e
                                 | Inr m3 \<Rightarrow> Inr (l\<lparr>ut_mem := m3\<rparr>)))))))"

text \<open>
  The \<^verbatim>\<open>while(tmp)\<close> loop of \<^verbatim>\<open>sort_timer_lst::tick\<close>; \<open>cur\<close> is the value of
  \<^verbatim>\<open>time(NULL)\<close>. The callback is called without a test for null.
\<close>

partial_function (option) lst_tick_loop ::
  "int \<Rightarrow> ptr \<Rightarrow> sort_timer_lst \<Rightarrow> (error + sort_timer_lst) option" where
  "lst_tick_loop cur tmp l =
     (case tmp of
        None \<Rightarrow> Some (Inr l)
      | Some ta \<Rightarrow>
          (case ut_mem l ta of
             None \<Rightarrow> Some (Inl UseAfterFree)
           | Some tt \<Rightarrow>
               if cur < ut_expire tt then Some (Inr l)
               else
                 (case ut_cb_func tt of
                    Func f \<Rightarrow>
                      (let l1 = l\<lparr>ut_fired := ut_fired l @ [Invoke ta f (ut_user_data tt)],
                                  head := ut_next tt\<rparr> in
                       case ut_next tt of
                         None \<Rightarrow>
                           lst_tick_loop cur None (l1\<lparr>ut_mem := (ut_mem l1)(ta := None)\<rparr>)
                       | Some ha \<Rightarrow>
                           (case upd (ut_mem l1) (Some ha) (\<lambda>x. x\<lparr>ut_prev := None\<rparr>) of
                              Inl e \<Rightarrow> Some (Inl e)
                            | Inr m \<Rightarrow>
                                lst_tick_loop cur (Some ha) (l1\<lparr>ut_mem := m(ta := None)\<rparr>)))
                  | _ \<Rightarrow> Some (Inl BadCall))))"

definition lst_tick :: "int \<Rightarrow> sort_timer_lst \<Rightarrow> (error + sort_timer_lst) option" where
  "lst_tick cur l =
     (case head l of
        None \<Rightarrow> Some (Inr l)
      | Some ha \<Rightarrow> lst_tick_loop cur (head l) l)"

section \<open>Specification vocabulary\<close>

text \<open>
  \<open>dseg nx pv m q p as r\<close>: in the store \<open>m\<close>, following the \<open>nx\<close> fields from the pointer
  \<open>p\<close> visits exactly the objects at the addresses \<open>as\<close>, in that order, and then arrives
  at \<open>r\<close>; the \<open>pv\<close> field of each visited object points to the one before it, that of the
  first to \<open>q\<close>. With \<open>r = None\<close> and \<open>q = None\<close> this is a well-formed null-terminated
  doubly linked list.
\<close>

primrec dseg ::
  "('a \<Rightarrow> ptr) \<Rightarrow> ('a \<Rightarrow> ptr) \<Rightarrow> (addr \<Rightarrow> 'a option) \<Rightarrow> ptr \<Rightarrow> ptr \<Rightarrow> addr list \<Rightarrow> ptr \<Rightarrow> bool" where
  "dseg nx pv m q p [] r = (p = r)"
| "dseg nx pv m q p (a # as) r =
     (p = Some a \<and>
      (case m a of None \<Rightarrow> False | Some t \<Rightarrow> pv t = q \<and> dseg nx pv m (Some a) (nx t) as r))"

text \<open>
  \<open>lst_is l as\<close>: the sorted-list object \<open>l\<close> holds exactly the timers at the addresses
  \<open>as\<close>, in list order from \<open>head\<close>, and \<open>tail\<close> points to the last of them.
  \<open>lst_keys l as\<close> are their expiry times, in list order.
\<close>

definition lst_is :: "sort_timer_lst \<Rightarrow> addr list \<Rightarrow> bool" where
  "lst_is l as =
     (dseg ut_next ut_prev (ut_mem l) None (head l) as None \<and> distinct as
      \<and> (as = [] \<or> tail l = Some (last as)))"

definition lst_keys :: "sort_timer_lst \<Rightarrow> addr list \<Rightarrow> int list" where
  "lst_keys l as = map (\<lambda>a. ut_expire (the (ut_mem l a))) as"

definition ut_payload :: "util_timer \<Rightarrow> int \<times> callback \<times> nat" where
  "ut_payload t = (ut_expire t, ut_cb_func t, ut_user_data t)"

text \<open>\<open>lastp q xs\<close>: the address of the last element of \<open>xs\<close>, or \<open>q\<close> when there is none.\<close>

definition lastp :: "ptr \<Rightarrow> addr list \<Rightarrow> ptr" where
  "lastp q xs = (if xs = [] then q else Some (last xs))"

text \<open>
  \<open>lst_due cur l a\<close>: the timer at \<open>a\<close> has expired at time \<open>cur\<close> (\<^verbatim>\<open>tick\<close> stops at
  \<^verbatim>\<open>cur < tmp->expire\<close>). \<open>lst_event l a\<close> is the call that firing it makes.
\<close>

definition lst_expire :: "sort_timer_lst \<Rightarrow> addr \<Rightarrow> int" where
  "lst_expire l a = ut_expire (the (ut_mem l a))"

definition lst_due :: "int \<Rightarrow> sort_timer_lst \<Rightarrow> addr \<Rightarrow> bool" where
  "lst_due cur l a = (lst_expire l a \<le> cur)"

definition lst_cb :: "sort_timer_lst \<Rightarrow> addr \<Rightarrow> callback" where
  "lst_cb l a = ut_cb_func (the (ut_mem l a))"

definition lst_event :: "sort_timer_lst \<Rightarrow> addr \<Rightarrow> event list" where
  "lst_event l a =
     (case lst_cb l a of
        Func f \<Rightarrow> [Invoke a f (ut_user_data (the (ut_mem l a)))]
      | _ \<Rightarrow> [])"

text \<open>
  The wheel. \<open>tw_due w a\<close>: the timer at \<open>a\<close> is due when its slot is processed
  (\<^verbatim>\<open>tick\<close> tests \<^verbatim>\<open>tmp->rotation > 0\<close> to skip it). \<open>tw_event w a\<close> is the call that
  firing it makes.
\<close>

definition tw_payload :: "tw_timer \<Rightarrow> int \<times> int \<times> callback \<times> nat" where
  "tw_payload t = (rotation t, time_slot t, tw_cb_func t, tw_user_data t)"

definition tw_rot :: "time_wheel \<Rightarrow> addr \<Rightarrow> int" where
  "tw_rot w a = rotation (the (tw_mem w a))"

definition tw_slot :: "time_wheel \<Rightarrow> addr \<Rightarrow> int" where
  "tw_slot w a = time_slot (the (tw_mem w a))"

definition tw_cb :: "time_wheel \<Rightarrow> addr \<Rightarrow> callback" where
  "tw_cb w a = tw_cb_func (the (tw_mem w a))"

definition tw_due :: "time_wheel \<Rightarrow> addr \<Rightarrow> bool" where
  "tw_due w a = (\<not> 0 < tw_rot w a)"

definition tw_event :: "time_wheel \<Rightarrow> addr \<Rightarrow> event list" where
  "tw_event w a =
     (case tw_cb w a of
        Func f \<Rightarrow> [Invoke a f (tw_user_data (the (tw_mem w a)))]
      | _ \<Rightarrow> [])"

text \<open>
  \<open>wheel_is w bs\<close>: the wheel has \<open>N\<close> slots and its current slot is one of them; slot \<open>i\<close>
  heads a well-formed doubly linked list of the distinct timers \<open>bs ! i\<close>, each of which
  records \<open>i\<close> as its \<^verbatim>\<open>time_slot\<close>.
\<close>

definition bucket_is :: "time_wheel \<Rightarrow> addr list list \<Rightarrow> nat \<Rightarrow> bool" where
  "bucket_is w bs i =
     (dseg tw_next tw_prev (tw_mem w) None (slots w ! i) (bs ! i) None \<and> distinct (bs ! i)
      \<and> list_all (\<lambda>a. tw_slot w a = int i) (bs ! i))"

definition wheel_is :: "time_wheel \<Rightarrow> addr list list \<Rightarrow> bool" where
  "wheel_is w bs =
     (length (slots w) = nat N \<and> length bs = nat N \<and> 0 \<le> cur_slot w \<and> cur_slot w < N
      \<and> list_all (bucket_is w bs) [0..<nat N])"

text \<open>
  The heap. \<open>heap_live h\<close> is the occupied part of the array (positions \<open>0\<close> to
  \<open>cur_size - 1\<close>), \<open>heap_keys h\<close> the expiry times of the records there, position by
  position. \<open>hparent i\<close> is the position \<^verbatim>\<open>(i-1)/2\<close>. \<open>min_heap ks\<close> is the min-heap
  property: every position but the root holds a key that is at least its parent's.
\<close>

definition key :: "(addr \<Rightarrow> heap_timer option) \<Rightarrow> ptr \<Rightarrow> int" where
  "key m p = ht_expire (the (m (the p)))"

definition hparent :: "nat \<Rightarrow> nat" where
  "hparent i = (i - 1) div 2"

definition heap_live :: "time_heap \<Rightarrow> ptr list" where
  "heap_live h = take (nat (cur_size h)) (array h)"

definition heap_keys :: "time_heap \<Rightarrow> int list" where
  "heap_keys h = map (key (ht_mem h)) (heap_live h)"

definition min_heap :: "int list \<Rightarrow> bool" where
  "min_heap ks = list_all (\<lambda>i. ks ! hparent i \<le> ks ! i) [1..<length ks]"

definition heap_ordered :: "time_heap \<Rightarrow> bool" where
  "heap_ordered h = min_heap (heap_keys h)"

text \<open>
  \<open>heap_wf h\<close>: \<open>capacity\<close> is the length of the array, \<open>cur_size\<close> lies between 0 and
  \<open>capacity\<close>, and the occupied positions hold pointers to distinct objects that were
  allocated and not yet deleted.
\<close>

definition live_ptr :: "time_heap \<Rightarrow> ptr \<Rightarrow> bool" where
  "live_ptr h p = (case p of None \<Rightarrow> False | Some a \<Rightarrow> a < ht_fresh h \<and> ht_mem h a \<noteq> None)"

definition heap_wf :: "time_heap \<Rightarrow> bool" where
  "heap_wf h =
     (capacity h = int (length (array h)) \<and> 0 \<le> cur_size h \<and> cur_size h \<le> capacity h
      \<and> list_all (live_ptr h) (heap_live h) \<and> distinct (heap_live h))"

text \<open>
  \<open>heap_due cur h p\<close>: the record that \<open>p\<close> points to has expired at time \<open>cur\<close>
  (\<^verbatim>\<open>tick\<close> tests \<^verbatim>\<open>tmp->expire > cur\<close> to stop). \<open>heap_event h p\<close> is the call that
  firing this record makes: one invocation when its callback is a function, none when the
  callback is null (a cancelled record).
\<close>

definition heap_due :: "int \<Rightarrow> time_heap \<Rightarrow> ptr \<Rightarrow> bool" where
  "heap_due cur h p = (key (ht_mem h) p \<le> cur)"

definition heap_cb :: "time_heap \<Rightarrow> ptr \<Rightarrow> callback" where
  "heap_cb h p = ht_cb_func (the (ht_mem h (the p)))"

definition heap_event :: "time_heap \<Rightarrow> ptr \<Rightarrow> event list" where
  "heap_event h p =
     (case heap_cb h p of
        Func f \<Rightarrow> [Invoke (the p) f (ht_user_data (the (ht_mem h (the p))))]
      | _ \<Rightarrow> [])"

text \<open>
  What a host does with a heap: it schedules (allocates a timer with an expiry, a callback
  and an argument, and passes it to \<^verbatim>\<open>add_timer\<close>), cancels through a handle
  (\<^verbatim>\<open>del_timer\<close>), or calls \<^verbatim>\<open>tick\<close> at some time.
\<close>

datatype heap_op = Schedule int callback nat | Cancel addr | Tick int

fun heap_step :: "heap_op \<Rightarrow> time_heap \<Rightarrow> error + time_heap" where
  "heap_step (Schedule e f d) h = (case heap_timer_new e f d h of (p, h1) \<Rightarrow> heap_add_timer p h1)"
| "heap_step (Cancel a) h = heap_del_timer (Some a) h"
| "heap_step (Tick cur) h = heap_tick cur h"

fun heap_run :: "heap_op list \<Rightarrow> time_heap \<Rightarrow> error + time_heap" where
  "heap_run [] h = Inr h"
| "heap_run (x # xs) h = (case heap_step x h of Inl e \<Rightarrow> Inl e | Inr h1 \<Rightarrow> heap_run xs h1)"

text \<open>A schedule whose callback field was assigned (a function or null), or a tick.\<close>

fun heap_op_plain :: "heap_op \<Rightarrow> bool" where
  "heap_op_plain (Schedule e f d) = (f \<noteq> Unset)"
| "heap_op_plain (Cancel a) = False"
| "heap_op_plain (Tick cur) = True"

text \<open>
  \<open>heap_good h\<close>: a well-formed, heap-ordered heap with room for at least one pointer,
  none of whose records has a callback field that was never assigned.
\<close>

definition heap_good :: "time_heap \<Rightarrow> bool" where
  "heap_good h = (heap_wf h \<and> heap_ordered h \<and> 0 < capacity h
                   \<and> (\<forall>p\<in>set (heap_live h). heap_cb h p \<noteq> Unset))"

section \<open>Scenarios\<close>

text \<open>
  The scenario of the wheel: on a new wheel (current slot 0) the host schedules a timeout
  of 65 and assigns the callback \<open>Func 7\<close> with argument 42 through the returned handle.
  \<open>wheel_scenario_trace n\<close> is the trace of callback invocations after \<open>n\<close> further calls
  of \<^verbatim>\<open>tick\<close>.
\<close>

definition wheel_scenario :: "error + time_wheel" where
  "wheel_scenario =
     (case wheel_add_timer 65 time_wheel_new of
        Inl e \<Rightarrow> Inl e
      | Inr (p, w) \<Rightarrow> tw_set_cb p (Func 7) 42 w)"

definition wheel_scenario_trace :: "nat \<Rightarrow> (error + event list) option" where
  "wheel_scenario_trace n =
     (case wheel_scenario of
        Inl e \<Rightarrow> Some (Inl e)
      | Inr w \<Rightarrow> map_option (map_sum id tw_fired) (wheel_tick_n n w))"

text \<open>The wheel after \<open>n\<close> calls of \<^verbatim>\<open>tick\<close> on a new wheel.\<close>

definition wheel_after :: "nat \<Rightarrow> (error + time_wheel) option" where
  "wheel_after n = wheel_tick_n n time_wheel_new"

definition wheel_add_after :: "nat \<Rightarrow> int \<Rightarrow> (error + (ptr \<times> time_wheel)) option" where
  "wheel_add_after n timeout =
     (case wheel_after n of
        None \<Rightarrow> None
      | Some (Inl e) \<Rightarrow> Some (Inl e)
      | Some (Inr w) \<Rightarrow> Some (wheel_add_timer timeout w))"

text \<open>
  The scenario of the sorted list: the host schedules \<open>A\<close> (address 0, expiry 10,
  callback \<open>Func 1\<close> with argument 100) and \<open>B\<close> (address 1, expiry 5, callback \<open>Func 2\<close>
  with argument 200) on a new list, assigns 20 to \<open>B\<close>'s expiry and calls
  \<^verbatim>\<open>adjust_timer\<close> on \<open>B\<close>; then \<^verbatim>\<open>tick\<close> runs at time 15.
\<close>

definition lst_then ::
  "(error + sort_timer_lst) option \<Rightarrow> (sort_timer_lst \<Rightarrow> (error + sort_timer_lst) option)
     \<Rightarrow> (error + sort_timer_lst) option" where
  "lst_then r f = (case r of None \<Rightarrow> None | Some (Inl e) \<Rightarrow> Some (Inl e) | Some (Inr l) \<Rightarrow> f l)"

definition lst_scenario_adjusted :: "(error + sort_timer_lst) option" where
  "lst_scenario_adjusted =
     (case util_timer_new 10 (Func 1) 100 sort_timer_lst_new of (pa, l1) \<Rightarrow>
        lst_then (lst_add_timer pa l1) (\<lambda>l2.
          case util_timer_new 5 (Func 2) 200 l2 of (pb, l3) \<Rightarrow>
            lst_then (lst_add_timer pb l3) (\<lambda>l4.
              case ut_set_expire pb 20 l4 of
                Inl e \<Rightarrow> Some (Inl e)
              | Inr l5 \<Rightarrow> lst_adjust_timer pb l5)))"

definition lst_scenario_ticked :: "(error + sort_timer_lst) option" where
  "lst_scenario_ticked = lst_then lst_scenario_adjusted (lst_tick 15)"

text \<open>Two small heaps: an empty one of capacity 4, and the same after one timer was added.\<close>

definition heap4 :: time_heap where
  "heap4 = \<lparr>array = [None, None, None, None], capacity = 4, cur_size = 0,
            ht_mem = (\<lambda>_. None), ht_fresh = 0, ht_fired = []\<rparr>"

definition heap_one :: time_heap where
  "heap_one = \<lparr>array = [Some 0, None, None, None], capacity = 4, cur_size = 1,
               ht_mem = (\<lambda>_. None)(0 \<mapsto> \<lparr>ht_expire = 5, ht_cb_func = Func 1, ht_user_data = 9\<rparr>),
               ht_fresh = 1, ht_fired = []\<rparr>"

text \<open>
  An empty heap of capacity 2; the heap after timers with expiry 5 (address 0) and 1
  (address 1) were scheduled on \<open>heap4\<close>; and that heap after the second was cancelled.
\<close>

definition heap2 :: time_heap where
  "heap2 = \<lparr>array = [None, None], capacity = 2, cur_size = 0,
            ht_mem = (\<lambda>_. None), ht_fresh = 0, ht_fired = []\<rparr>"

definition heap_two :: time_heap where
  "heap_two = \<lparr>array = [Some 1, Some 0, None, None], capacity = 4, cur_size = 2,
               ht_mem = (\<lambda>_. None)(0 \<mapsto> \<lparr>ht_expire = 5, ht_cb_func = Func 1, ht_user_data = 9\<rparr>,
                                    1 \<mapsto> \<lparr>ht_expire = 1, ht_cb_func = Func 2, ht_user_data = 8\<rparr>),
               ht_fresh = 2, ht_fired = []\<rparr>"

definition heap_two_cancelled :: time_heap where
  "heap_two_cancelled = heap_two\<lparr>ht_mem := (ht_mem heap_two)
       (1 \<mapsto> \<lparr>ht_expire = 1, ht_cb_func = Null, ht_user_data = 8\<rparr>)\<rparr>"

text \<open>
  A sorted list holding the timers at addresses 0 and 1 (expiries 10 and 20); the timer at
  address 2 (expiry 15) is allocated and not yet in the list.
\<close>

definition lst_two :: sort_timer_lst where
  "lst_two =
     \<lparr>head = Some 0, tail = Some 1,
      ut_mem = (\<lambda>_. None)
        (0 \<mapsto> \<lparr>ut_expire = 10, ut_cb_func = Func 1, ut_user_data = 100,
                ut_prev = None, ut_next = Some 1\<rparr>,
         1 \<mapsto> \<lparr>ut_expire = 20, ut_cb_func = Func 2, ut_user_data = 200,
                ut_prev = Some 0, ut_next = None\<rparr>,
         2 \<mapsto> \<lparr>ut_expire = 15, ut_cb_func = Func 3, ut_user_data = 300,
                ut_prev = None, ut_next = None\<rparr>),
      ut_fresh = 3, ut_fired = []\<rparr>"

text \<open>
  A wheel at current slot 3 whose slot 3 holds the timers at addresses 0 (rotation 0) and
  1 (rotation 1), in that order; \<open>wheel_two_buckets\<close> lists the timers of its slots.
\<close>

definition wheel_two :: time_wheel where
  "wheel_two =
     \<lparr>slots = (replicate (nat N) None)[3 := Some 0], cur_slot = 3,
      tw_mem = (\<lambda>_. None)
        (0 \<mapsto> \<lparr>rotation = 0, time_slot = 3, tw_cb_func = Func 7, tw_user_data = 42,
                tw_next = Some 1, tw_prev = None\<rparr>,
         1 \<mapsto> \<lparr>rotation = 1, time_slot = 3, tw_cb_func = Func 8, tw_user_data = 43,
                tw_next = None, tw_prev = Some 0\<rparr>),
      tw_fresh = 2, tw_fired = []\<rparr>"

definition wheel_two_buckets :: "addr list list" where
  "wheel_two_buckets = (replicate (nat N) [])[3 := [0, 1]]"

text \<open>The empty heap that the constructor builds for capacity 0.\<close>

definition heap0 :: time_heap where
  "heap0 = \<lparr>array = [], capacity = 0, cur_size = 0,
            ht_mem = (\<lambda>_. None), ht_fresh = 0, ht_fired = []\<rparr>"

text \<open>
  Three timers, all due at time 40, of which the second has a null callback
  (\<^verbatim>\<open>timer->cb_func = nullptr\<close>). On a new sorted list the host schedules them with
  expiries 10, 20 and 30 (addresses 0, 1, 2).
\<close>

definition lst_null_cb_scenario :: "(error + sort_timer_lst) option" where
  "lst_null_cb_scenario =
     (case util_timer_new 10 (Func 1) 100 sort_timer_lst_new of (pa, l1) \<Rightarrow>
        lst_then (lst_add_timer pa l1) (\<lambda>l2.
          case util_timer_new 20 Null 200 l2 of (pb, l3) \<Rightarrow>
            lst_then (lst_add_timer pb l3) (\<lambda>l4.
              case util_timer_new 30 (Func 3) 300 l4 of (pc, l5) \<Rightarrow>
                lst_add_timer pc l5)))"

text \<open>
  On a new wheel the host schedules the three timers with timeout 1 and assigns the
  callbacks through the returned handles; \<^verbatim>\<open>add_timer\<close> puts each at the head of slot 1,
  so the slot holds the addresses 2, 1, 0 in that order. \<open>wheel_null_cb_ticks n\<close> is the
  wheel after \<open>n\<close> further calls of \<^verbatim>\<open>tick\<close>.
\<close>

definition wheel_then ::
  "error + time_wheel \<Rightarrow> (time_wheel \<Rightarrow> error + time_wheel) \<Rightarrow> error + time_wheel" where
  "wheel_then r f = (case r of Inl e \<Rightarrow> Inl e | Inr w \<Rightarrow> f w)"

definition wheel_schedule :: "int \<Rightarrow> callback \<Rightarrow> nat \<Rightarrow> time_wheel \<Rightarrow> error + time_wheel" where
  "wheel_schedule timeout f d w =
     (case wheel_add_timer timeout w of
        Inl e \<Rightarrow> Inl e
      | Inr (p, w1) \<Rightarrow> tw_set_cb p f d w1)"

definition wheel_null_cb_scenario :: "error + time_wheel" where
  "wheel_null_cb_scenario =
     wheel_then (wheel_then (wheel_schedule 1 (Func 1) 100 time_wheel_new)
                   (wheel_schedule 1 Null 200))
       (wheel_schedule 1 (Func 3) 300)"

definition wheel_null_cb_ticks :: "nat \<Rightarrow> (error + time_wheel) option" where
  "wheel_null_cb_ticks n =
     (case wheel_null_cb_scenario of
        Inl e \<Rightarrow> Some (Inl e)
      | Inr w \<Rightarrow> wheel_tick_n n w)"

section \<open>Properties of the time wheel\<close>

lemmas wheel_eval =
  wheel_tick_def wheel_tick_loop.simps rd_def wr_def upd_def deref_def tw_unlink_def N_def SI_def
  wheel_add_timer_def wheel_position_def wheel_ticks_def tw_timer_new_def time_wheel_new_def
  tw_set_cb_def Let_def

text \<open>
  C1 (fails on the code). The claim: scheduling a timeout \<open>t\<close> at current slot \<open>c\<close> creates a
  record with \<open>slot = (c + max 1 (t / SI)) mod N\<close>. The code computes
  \<^verbatim>\<open>ts = (cur_slot + (ticks % N))\<close> and never reduces the sum modulo \<open>N\<close>, although the
  comment at the head of the file gives \<^verbatim>\<open>ts=(cs+(ti/si))%N\<close>. After one call of
  \<^verbatim>\<open>tick\<close> on a new wheel the current slot is 1; scheduling a timeout of 59 there
  computes slot 60, where the claim gives slot 0, and the access \<^verbatim>\<open>slots[60]\<close> is
  outside the array of 60 slots.
\<close>

theorem wheel_add_timer_slot_not_reduced:
  "map_option (map_sum id cur_slot) (wheel_after 1) = Some (Inr 1)
   \<and> wheel_position 1 59 = (0, 60)
   \<and> (1 + max 1 (59 div SI)) mod N = 0
   \<and> wheel_add_after 1 59 = Some (Inl OutOfBounds)"
  by (simp add: wheel_after_def wheel_add_after_def wheel_eval)

text \<open>
  C3 (as the claim states it, false). With \<open>N = 60\<close>, \<open>SI = 1\<close> and current slot 0, the claim
  says that after 65 calls of \<^verbatim>\<open>tick\<close> the callback of the timer scheduled with
  timeout 65 has fired exactly once. \<^verbatim>\<open>tick\<close> processes the current slot and then
  advances, so its \<open>k\<close>-th call processes slot \<open>(k - 1) mod 60\<close>: after 65 calls slot 5 has
  been visited once (decrementing the rotation) and nothing has fired.
\<close>

theorem wheel_scenario_65_counterexample:
  "wheel_scenario_trace 65 = Some (Inr [])
   \<and> wheel_scenario_trace 65 \<noteq> Some (Inr [Invoke 0 7 42])"
  unfolding wheel_scenario_trace_def wheel_scenario_def
  by (simp add: wheel_eval eval_nat_numeral)

text \<open>
  C3 (amended). In that scenario the record is created with rotation 1 in slot 5, at the
  head of that slot; no callback fires during the first 5 calls of \<^verbatim>\<open>tick\<close>, nor
  during the first 65; the callback fires on the 66th call, and after 66 calls in total
  (and still after 200) it has fired exactly once.
\<close>

theorem wheel_scenario_66:
  "wheel_add_timer 65 time_wheel_new =
     Inr (Some 0, time_wheel_new
            \<lparr>slots := (slots time_wheel_new)[5 := Some 0],
             tw_mem := (tw_mem time_wheel_new)(0 \<mapsto> tw_timer_new 1 5),
             tw_fresh := 1\<rparr>)
   \<and> map wheel_scenario_trace [1, 2, 3, 4, 5, 65] = replicate 6 (Some (Inr []))
   \<and> wheel_scenario_trace 66 = Some (Inr [Invoke 0 7 42])
   \<and> wheel_scenario_trace 200 = Some (Inr [Invoke 0 7 42])"
  unfolding wheel_scenario_trace_def wheel_scenario_def
  by (simp add: wheel_eval eval_nat_numeral)

text \<open>
  C4 (as the claim states it, false). The claim says that every timeout \<open>\<le> 0\<close> is rejected.
  The guard of \<^verbatim>\<open>add_timer\<close> is \<^verbatim>\<open>timeout < 0\<close>: a timeout of 0 passes it, is
  rounded up to one tick, and a timer is created and put in the slot after the current one.
\<close>

theorem wheel_add_timer_zero_counterexample:
  "wheel_add_timer 0 time_wheel_new =
     Inr (Some 0, time_wheel_new
            \<lparr>slots := (slots time_wheel_new)[1 := Some 0],
             tw_mem := (tw_mem time_wheel_new)(0 \<mapsto> tw_timer_new 0 1),
             tw_fresh := 1\<rparr>)
   \<and> wheel_add_timer 0 time_wheel_new \<noteq> Inr (None, time_wheel_new)"
  by (simp add: wheel_eval)

text \<open>
  C4 (amended). Every negative timeout is rejected: \<^verbatim>\<open>add_timer\<close> returns the null
  handle and the wheel, its slots and the store of timers are exactly as before. A
  timeout that is not negative never gets the null handle.
\<close>

theorem wheel_add_timer_negative:
  "(timeout < 0 \<longrightarrow> wheel_add_timer timeout w = Inr (None, w))
   \<and> (0 \<le> timeout \<longrightarrow> wheel_add_timer timeout w \<noteq> Inr (None, w'))"
  by (auto simp: wheel_add_timer_def Let_def split: prod.splits sum.splits option.splits)

theorem wheel_add_timer_negative_witness:
  "wheel_add_timer (-3) time_wheel_new = Inr (None, time_wheel_new)
   \<and> wheel_add_timer 0 time_wheel_new \<noteq> Inr (None, time_wheel_new)"
  using wheel_add_timer_negative [of "-3" time_wheel_new time_wheel_new]
        wheel_add_timer_negative [of 0 time_wheel_new time_wheel_new]
  by simp

section \<open>Null timer pointers\<close>

text \<open>
  C2 (as the claim states it, false). The claim says that the heap's schedule
  (\<^verbatim>\<open>add_timer\<close>) returns without effect and raises no error when given a null timer.
  \<^verbatim>\<open>time_heap::add_timer\<close> begins with \<^verbatim>\<open>if(!timer) throw std::exception();\<close>: on
  the empty heap of capacity 4 the call with a null timer ends in that exception.
\<close>

theorem heap_add_timer_null_counterexample:
  "time_heap_new 4 = Inr heap4
   \<and> heap_add_timer None heap4 = Inl Exception
   \<and> heap_add_timer None heap4 \<noteq> Inr heap4"
  by (simp add: time_heap_new_def heap4_def heap_add_timer_def eval_nat_numeral)

text \<open>
  C2 (amended). A null timer passed to the heap's cancel (\<^verbatim>\<open>del_timer\<close>), to the sorted
  list's schedule, adjust or cancel, or to the wheel's cancel is a no-op: the call returns
  without error and the queue, the store of timers and the trace are exactly as before.
  The heap's schedule (\<^verbatim>\<open>add_timer\<close>) is the exception: given a null timer it throws
  \<^verbatim>\<open>std::exception\<close>, whatever the heap.
\<close>

theorem null_timer_handling:
  "heap_add_timer None h = Inl Exception
   \<and> heap_del_timer None h = Inr h
   \<and> lst_add_timer None l = Some (Inr l)
   \<and> lst_adjust_timer None l = Some (Inr l)
   \<and> lst_del_timer None l = Inr l
   \<and> wheel_del_timer None w = Inr w"
  by (simp add: heap_add_timer_def heap_del_timer_def lst_add_timer_def lst_adjust_timer_def
        lst_del_timer_def wheel_del_timer_def)

section \<open>The scenario of the sorted list\<close>

lemmas lst_eval =
  lst_then_def util_timer_new_def sort_timer_lst_new_def lst_add_timer_def
  lst_add_timer_from_def lst_insert_loop.simps lst_adjust_timer_def lst_tick_def
  lst_tick_loop.simps ut_set_expire_def upd_def deref_def free_def lst_is_def lst_keys_def

text \<open>
  C9. Schedule \<open>A\<close> with expiry 10 and \<open>B\<close> with expiry 5, set \<open>B\<close>'s expiry to 20 and call
  adjust on \<open>B\<close>: the list is then \<open>A, B\<close> (addresses 0, 1; expiries 10, 20) and nothing
  has fired. A tick at time 15 after that calls \<open>A\<close>'s callback and no other, destroys
  \<open>A\<close>, and leaves the list holding \<open>B\<close> alone.
\<close>

theorem lst_scenario_adjust_then_tick:
  "(case lst_scenario_adjusted of
      Some (Inr l) \<Rightarrow> lst_is l [0, 1] \<and> lst_keys l [0, 1] = [10, 20] \<and> ut_fired l = []
    | _ \<Rightarrow> False)
   \<and> (case lst_scenario_ticked of
      Some (Inr l) \<Rightarrow>
        ut_fired l = [Invoke 0 1 100] \<and> lst_is l [1] \<and> lst_keys l [1] = [20]
        \<and> ut_mem l 0 = None
    | _ \<Rightarrow> False)"
  unfolding lst_scenario_ticked_def lst_scenario_adjusted_def
  by (simp add: lst_eval)

section \<open>The heap when it is empty\<close>

text \<open>
  C10. On a heap with \<open>cur_size = 0\<close>, \<^verbatim>\<open>top()\<close> returns no timer and
  \<^verbatim>\<open>pop_timer()\<close> leaves the heap as it is. On a heap whose sole record is the live timer
  at \<^verbatim>\<open>array[0]\<close>, \<^verbatim>\<open>pop_timer()\<close> destroys that record and yields an empty heap, on
  which \<^verbatim>\<open>top()\<close> again returns no timer; no callback is called.
\<close>

theorem heap_empty_top_pop:
  "(cur_size h = 0 \<longrightarrow> heap_top h = Inr None \<and> heap_pop_timer h = Inr h)
   \<and> (cur_size h = 1 \<and> rd (array h) 0 = Inr (Some a) \<and> ht_mem h a = Some t \<longrightarrow>
        (\<exists>h'. heap_pop_timer h = Inr h' \<and> cur_size h' = 0 \<and> heap_empty h'
              \<and> heap_top h' = Inr None \<and> ht_mem h' a = None \<and> ht_fired h' = ht_fired h))"
  by (auto simp: heap_top_def heap_empty_def heap_pop_timer_def Let_def rd_def wr_def
       percolate_down_def percolate_loop.simps split: if_splits)

theorem heap_empty_top_pop_witness:
  "cur_size heap4 = 0 \<and> heap_top heap4 = Inr None \<and> heap_pop_timer heap4 = Inr heap4
   \<and> (case heap_timer_new 5 (Func 1) 9 heap4 of (p, h) \<Rightarrow> heap_add_timer p h) = Inr heap_one
   \<and> cur_size heap_one = 1 \<and> rd (array heap_one) 0 = Inr (Some 0)
   \<and> (\<exists>h'. heap_pop_timer heap_one = Inr h' \<and> cur_size h' = 0 \<and> heap_empty h'
            \<and> heap_top h' = Inr None \<and> ht_mem h' 0 = None \<and> ht_fired h' = ht_fired heap_one)"
  using heap_empty_top_pop [of heap4]
        heap_empty_top_pop [of heap_one 0 "\<lparr>ht_expire = 5, ht_cb_func = Func 1, ht_user_data = 9\<rparr>"]
  by (simp add: heap4_def heap_one_def rd_def wr_def heap_timer_new_def heap_add_timer_def
        sift_up.simps)

section \<open>Properties of the binary heap\<close>

lemma parent_int: "0 < j \<Longrightarrow> (int j - 1) div 2 = int (hparent j)"
  by (cases j) (simp_all add: zdiv_int hparent_def)

lemma parent_less: "0 < j \<Longrightarrow> hparent j < j"
  unfolding hparent_def by arith

lemma sift_up_correct:
  fixes h :: time_heap and n :: nat
  assumes n: "n < length (array h)" and tt: "ht_mem h ta = Some tt"
  shows "j \<le> n \<Longrightarrow>
     (\<forall>i \<le> n. i \<noteq> j \<longrightarrow> (\<exists>a t. arr ! i = Some a \<and> ht_mem h a = Some t)) \<Longrightarrow>
     length arr = length (array h) \<Longrightarrow>
     (\<forall>i. 0 < i \<and> i \<le> n \<and> i \<noteq> j \<longrightarrow>
          key (ht_mem h) ((arr[j := Some ta]) ! (hparent i)) \<le> key (ht_mem h) ((arr[j := Some ta]) ! i)) \<Longrightarrow>
     (\<forall>c. 0 < j \<and> c \<le> n \<and> 0 < c \<and> hparent c = j \<longrightarrow>
          key (ht_mem h) (arr ! (hparent j)) \<le> key (ht_mem h) (arr ! c)) \<Longrightarrow>
     \<exists>j' arr'. sift_up (Some ta) (int j) (h\<lparr>array := arr\<rparr>) = Inr (int j', h\<lparr>array := arr'\<rparr>)
        \<and> j' \<le> j \<and> length arr' = length arr
        \<and> (\<forall>i. 0 < i \<and> i \<le> n \<longrightarrow>
              key (ht_mem h) ((arr'[j' := Some ta]) ! (hparent i)) \<le> key (ht_mem h) ((arr'[j' := Some ta]) ! i))
        \<and> mset (take (Suc n) (arr'[j' := Some ta])) = mset (take (Suc n) (arr[j := Some ta]))
        \<and> drop (Suc n) arr' = drop (Suc n) arr"
proof (induction j arbitrary: arr rule: less_induct)
  case (less j)
  let ?K = "key (ht_mem h)"
  show ?case
  proof (cases "j = 0")
    case True
    with less.prems show ?thesis
      by (auto simp: sift_up.simps intro!: exI [of _ 0] exI [of _ arr])
  next
    case False
    then have j0: "0 < j" by simp
    let ?p = "hparent j"
    have pj: "?p < j" using j0 by (rule parent_less)
    with less.prems(1) have pn: "?p \<le> n" "?p \<noteq> j" by auto
    with less.prems(2) obtain pa pt where pa: "arr ! ?p = Some pa" "ht_mem h pa = Some pt"
      by blast
    have lens: "?p < length arr" "j < length arr"
      using pn less.prems(1,3) n by auto
    show ?thesis
    proof (cases "ht_expire pt \<le> ht_expire tt")
      case True
      have "sift_up (Some ta) (int j) (h\<lparr>array := arr\<rparr>) = Inr (int j, h\<lparr>array := arr\<rparr>)"
        using j0 pa tt True lens
        by (subst sift_up.simps) (simp add: parent_int rd_def deref_def Let_def)
      moreover have "\<forall>i. 0 < i \<and> i \<le> n \<longrightarrow>
              ?K ((arr[j := Some ta]) ! (hparent i)) \<le> ?K ((arr[j := Some ta]) ! i)"
      proof (intro allI impI)
        fix i assume i: "0 < i \<and> i \<le> n"
        show "?K ((arr[j := Some ta]) ! (hparent i)) \<le> ?K ((arr[j := Some ta]) ! i)"
        proof (cases "i = j")
          case False with i less.prems(4) show ?thesis by blast
        next
          case True
          then show ?thesis using pa tt \<open>ht_expire pt \<le> ht_expire tt\<close> lens pn
            by (simp add: key_def)
        qed
      qed
      ultimately show ?thesis by (intro exI [of _ j] exI [of _ arr]) simp
    next
      case False
      then have lt: "ht_expire tt < ht_expire pt" by simp
      let ?arr1 = "arr[j := Some pa]"
      have step: "sift_up (Some ta) (int j) (h\<lparr>array := arr\<rparr>)
                = sift_up (Some ta) (int ?p) (h\<lparr>array := ?arr1\<rparr>)"
        using j0 pa tt False lens
        by (subst sift_up.simps) (simp add: parent_int rd_def wr_def deref_def Let_def)
      have IH: "\<exists>j' arr'. sift_up (Some ta) (int ?p) (h\<lparr>array := ?arr1\<rparr>) = Inr (int j', h\<lparr>array := arr'\<rparr>)
        \<and> j' \<le> ?p \<and> length arr' = length ?arr1
        \<and> (\<forall>i. 0 < i \<and> i \<le> n \<longrightarrow>
              ?K ((arr'[j' := Some ta]) ! (hparent i)) \<le> ?K ((arr'[j' := Some ta]) ! i))
        \<and> mset (take (Suc n) (arr'[j' := Some ta])) = mset (take (Suc n) (?arr1[?p := Some ta]))
        \<and> drop (Suc n) arr' = drop (Suc n) ?arr1"
      proof (rule less.IH [OF pj])
        show "?p \<le> n" by fact
        show "\<forall>i\<le>n. i \<noteq> ?p \<longrightarrow> (\<exists>a t. ?arr1 ! i = Some a \<and> ht_mem h a = Some t)"
          using less.prems(2) pa lens by (auto simp: nth_list_update)
        show "length ?arr1 = length (array h)" using less.prems(3) by simp
        show "\<forall>i. 0 < i \<and> i \<le> n \<and> i \<noteq> ?p \<longrightarrow>
           ?K ((?arr1[?p := Some ta]) ! (hparent i)) \<le> ?K ((?arr1[?p := Some ta]) ! i)"
        proof (intro allI impI)
          fix i assume i: "0 < i \<and> i \<le> n \<and> i \<noteq> ?p"
          then have "hparent i < i" by (simp add: parent_less)
          with i have il: "i < length arr" "hparent i < length arr"
            using n less.prems(3) by auto
          consider (a) "i = j" | (b) "i \<noteq> j" "hparent i = ?p" | (c) "i \<noteq> j" "hparent i = j"
            | (d) "i \<noteq> j" "hparent i \<noteq> ?p" "hparent i \<noteq> j" by blast
          then show "?K ((?arr1[?p := Some ta]) ! (hparent i)) \<le> ?K ((?arr1[?p := Some ta]) ! i)"
          proof cases
            case a
            then show ?thesis using lens pj pa tt lt by (simp add: key_def)
          next
            case b
            have "?K ((arr[j := Some ta]) ! (hparent i)) \<le> ?K ((arr[j := Some ta]) ! i)"
              using less.prems(4) i b by blast
            then have "?K (arr ! ?p) \<le> ?K (arr ! i)" using b pj lens il by simp
            then show ?thesis using b i lens il pa tt lt pj by (simp add: key_def)
          next
            case c
            have "?K (arr ! ?p) \<le> ?K (arr ! i)"
              using less.prems(5) j0 i c by blast
            then show ?thesis using c i lens il pj pa by simp
          next
            case d
            have "?K ((arr[j := Some ta]) ! (hparent i)) \<le> ?K ((arr[j := Some ta]) ! i)"
              using less.prems(4) i d by blast
            then show ?thesis using d i lens il by simp
          qed
        qed
        show "\<forall>c. 0 < ?p \<and> c \<le> n \<and> 0 < c \<and> hparent c = ?p \<longrightarrow>
           ?K (?arr1 ! (hparent ?p)) \<le> ?K (?arr1 ! c)"
        proof (intro allI impI)
          fix c assume c: "0 < ?p \<and> c \<le> n \<and> 0 < c \<and> hparent c = ?p"
          have ppj: "hparent ?p \<noteq> j" "hparent ?p \<noteq> ?p" using c pj parent_less [of ?p] by auto
          have pp: "?K (arr ! (hparent ?p)) \<le> ?K (arr ! ?p)"
            using less.prems(4) [rule_format, of ?p] c pn ppj pj lens by simp
          show "?K (?arr1 ! (hparent ?p)) \<le> ?K (?arr1 ! c)"
          proof (cases "c = j")
            case True
            then show ?thesis using pp ppj lens pa by (simp add: key_def)
          next
            case False
            have "?K ((arr[j := Some ta]) ! (hparent c)) \<le> ?K ((arr[j := Some ta]) ! c)"
              using less.prems(4) c False by blast
            then have "?K (arr ! ?p) \<le> ?K (arr ! c)" using c False pj lens by simp
            with pp show ?thesis using False ppj by simp
          qed
        qed
      qed
      then obtain j' arr' where r: "sift_up (Some ta) (int ?p) (h\<lparr>array := ?arr1\<rparr>) = Inr (int j', h\<lparr>array := arr'\<rparr>)"
        "j' \<le> ?p" "length arr' = length ?arr1"
        "\<forall>i. 0 < i \<and> i \<le> n \<longrightarrow>
              ?K ((arr'[j' := Some ta]) ! (hparent i)) \<le> ?K ((arr'[j' := Some ta]) ! i)"
        "mset (take (Suc n) (arr'[j' := Some ta])) = mset (take (Suc n) (?arr1[?p := Some ta]))"
        "drop (Suc n) arr' = drop (Suc n) ?arr1"
        by blast
      let ?W = "take (Suc n) (arr[j := Some ta])"
      have W: "take (Suc n) (?arr1[?p := Some ta]) = ?W[j := ?W ! ?p, ?p := ?W ! j]"
        using lens pn pj pa less.prems(1) by (simp add: take_update_swap)
      have "mset (take (Suc n) (?arr1[?p := Some ta])) = mset ?W"
        unfolding W using lens pn less.prems(1) by (intro mset_swap) simp_all
      moreover have "drop (Suc n) ?arr1 = drop (Suc n) arr" using less.prems(1) by simp
      ultimately show ?thesis using r step pj
        by (intro exI [of _ j'] exI [of _ arr']) simp
    qed
  qed
qed


lemma rd_int: "rd xs (int i) = (if i < length xs then Inr (xs ! i) else Inl OutOfBounds)"
  by (simp add: rd_def)

lemma wr_int: "wr xs (int i) v = (if i < length xs then Inr (xs[i := v]) else Inl OutOfBounds)"
  by (simp add: wr_def)

lemma hparent_child: "0 < c \<Longrightarrow> hparent c = j \<longleftrightarrow> c = 2 * j + 1 \<or> c = 2 * j + 2"
  unfolding hparent_def by arith

lemma smaller_child_correct:
  assumes cs: "cur_size h = int n" and ch: "2 * j + 2 \<le> n" and len: "n \<le> length (array h)"
    and live: "\<forall>i<n. i \<noteq> j \<longrightarrow> (\<exists>a t. array h ! i = Some a \<and> ht_mem h a = Some t)"
  shows "\<exists>c. smaller_child (int j) h = Inr (int c) \<and> (c = 2 * j + 1 \<or> c = 2 * j + 2) \<and> c < n
           \<and> (\<forall>c'. (c' = 2 * j + 1 \<or> c' = 2 * j + 2) \<and> c' < n
                 \<longrightarrow> key (ht_mem h) (array h ! c) \<le> key (ht_mem h) (array h ! c'))"
proof -
  have i1: "int j * 2 + 1 = int (2 * j + 1)" and i2: "int (2 * j + 1) + 1 = int (2 * j + 2)"
    by simp_all
  from live [rule_format, of "2 * j + 1"] ch
  obtain a1 t1 where a1: "array h ! (2 * j + 1) = Some a1" "ht_mem h a1 = Some t1"
    by auto
  show ?thesis
  proof (cases "2 * j + 2 < n")
    case False
    with ch have eq: "n = 2 * j + 2" by simp
    have "smaller_child (int j) h = Inr (int (2 * j + 1))"
      unfolding smaller_child_def Let_def i1 cs using eq by simp
    then show ?thesis using eq by (intro exI [of _ "2 * j + 1"]) auto
  next
    case True
    with live [rule_format, of "2 * j + 2"]
    obtain a2 t2 where a2: "array h ! (2 * j + 2) = Some a2" "ht_mem h a2 = Some t2"
      by auto
    have sc: "smaller_child (int j) h
        = Inr (if ht_expire t2 < ht_expire t1 then int (2 * j + 2) else int (2 * j + 1))"
      unfolding smaller_child_def Let_def i1 cs i2 rd_int using True len a1 a2
      by (simp add: deref_def)
    show ?thesis
    proof (cases "ht_expire t2 < ht_expire t1")
      case True
      with sc \<open>2 * j + 2 < n\<close> a1 a2 show ?thesis
        by (intro exI [of _ "2 * j + 2"]) (auto simp: key_def)
    next
      case False
      with sc \<open>2 * j + 2 < n\<close> a1 a2 show ?thesis
        by (intro exI [of _ "2 * j + 1"]) (auto simp: key_def)
    qed
  qed
qed


lemma percolate_loop_correct:
  fixes h :: time_heap and n :: nat
  assumes cs: "cur_size h = int n" and tt: "ht_mem h ta = Some tt"
  shows "j < n \<Longrightarrow> n \<le> length arr \<Longrightarrow>
     (\<forall>i<n. i \<noteq> j \<longrightarrow> (\<exists>a t. arr ! i = Some a \<and> ht_mem h a = Some t)) \<Longrightarrow>
     (\<forall>i. 0 < i \<and> i < n \<and> hparent i \<noteq> j \<longrightarrow>
          key (ht_mem h) ((arr[j := Some ta]) ! hparent i) \<le> key (ht_mem h) ((arr[j := Some ta]) ! i)) \<Longrightarrow>
     (\<forall>c. 0 < j \<and> 0 < c \<and> c < n \<and> hparent c = j \<longrightarrow>
          key (ht_mem h) (arr ! hparent j) \<le> key (ht_mem h) (arr ! c)) \<Longrightarrow>
     \<exists>j' arr'. percolate_loop (Some ta) (int j) (h\<lparr>array := arr\<rparr>) = Inr (int j', h\<lparr>array := arr'\<rparr>)
        \<and> j' < n \<and> length arr' = length arr
        \<and> (\<forall>i. 0 < i \<and> i < n \<longrightarrow>
              key (ht_mem h) ((arr'[j' := Some ta]) ! hparent i) \<le> key (ht_mem h) ((arr'[j' := Some ta]) ! i))
        \<and> mset (take n (arr'[j' := Some ta])) = mset (take n (arr[j := Some ta]))
        \<and> drop n arr' = drop n arr"
proof (induction "n - j" arbitrary: j arr rule: less_induct)
  case less
  let ?K = "key (ht_mem h)"
  let ?h = "h\<lparr>array := arr\<rparr>"
  have i1: "int j * 2 + 1 = int (2 * j + 1)" by simp
  show ?case
  proof (cases "2 * j + 2 \<le> n")
    case False
    then have stop: "\<not> int j * 2 + 1 \<le> cur_size ?h - 1" using cs by simp
    have "percolate_loop (Some ta) (int j) ?h = Inr (int j, ?h)"
      using stop by (subst percolate_loop.simps) simp
    moreover have "\<forall>i. 0 < i \<and> i < n \<longrightarrow>
        ?K ((arr[j := Some ta]) ! hparent i) \<le> ?K ((arr[j := Some ta]) ! i)"
    proof (intro allI impI)
      fix i assume i: "0 < i \<and> i < n"
      with False have "hparent i \<noteq> j" by (auto simp: hparent_child)
      with i less.prems(4) show "?K ((arr[j := Some ta]) ! hparent i) \<le> ?K ((arr[j := Some ta]) ! i)"
        by blast
    qed
    ultimately show ?thesis using less.prems(1)
      by (intro exI [of _ j] exI [of _ arr]) simp
  next
    case True
    then have go: "int j * 2 + 1 \<le> cur_size ?h - 1" using cs by simp
    have "\<exists>c. smaller_child (int j) ?h = Inr (int c) \<and> (c = 2 * j + 1 \<or> c = 2 * j + 2) \<and> c < n
           \<and> (\<forall>c'. (c' = 2 * j + 1 \<or> c' = 2 * j + 2) \<and> c' < n
                 \<longrightarrow> key (ht_mem ?h) (array ?h ! c) \<le> key (ht_mem ?h) (array ?h ! c'))"
      by (rule smaller_child_correct) (use cs True less.prems in simp_all)
    then obtain c where sc: "smaller_child (int j) ?h = Inr (int c)"
      and c12: "c = 2 * j + 1 \<or> c = 2 * j + 2" and cn: "c < n"
      and cmin: "\<And>c'. (c' = 2 * j + 1 \<or> c' = 2 * j + 2) \<Longrightarrow> c' < n \<Longrightarrow> ?K (arr ! c) \<le> ?K (arr ! c')"
      by auto
    from c12 have cj: "j < c" "c \<noteq> j" and pc: "hparent c = j" "0 < c"
      by (auto simp: hparent_child)
    from less.prems(3) cn cj obtain ca ct where ca: "arr ! c = Some ca" "ht_mem h ca = Some ct"
      by blast
    have lens: "c < length arr" "j < length arr" using cn less.prems(1,2) by auto
    show ?thesis
    proof (cases "ht_expire ct < ht_expire tt")
      case False
      have "percolate_loop (Some ta) (int j) ?h = Inr (int j, ?h)"
        using go sc ca tt False lens
        by (subst percolate_loop.simps) (simp add: rd_int deref_def)
      moreover have "\<forall>i. 0 < i \<and> i < n \<longrightarrow>
          ?K ((arr[j := Some ta]) ! hparent i) \<le> ?K ((arr[j := Some ta]) ! i)"
      proof (intro allI impI)
        fix i assume i: "0 < i \<and> i < n"
        show "?K ((arr[j := Some ta]) ! hparent i) \<le> ?K ((arr[j := Some ta]) ! i)"
        proof (cases "hparent i = j")
          case False with i less.prems(4) show ?thesis by blast
        next
          case True
          with i have i12: "i = 2 * j + 1 \<or> i = 2 * j + 2" by (simp add: hparent_child)
          then have "i \<noteq> j" by auto
          moreover have "?K (arr ! c) \<le> ?K (arr ! i)" using cmin i12 i by blast
          moreover have "ht_expire tt \<le> ?K (arr ! c)" using False ca by (simp add: key_def)
          ultimately show ?thesis using True lens tt by (simp add: key_def)
        qed
      qed
      ultimately show ?thesis using less.prems(1)
        by (intro exI [of _ j] exI [of _ arr]) simp
    next
      case lt: True
      let ?arr1 = "arr[j := Some ca]"
      have step: "percolate_loop (Some ta) (int j) ?h
                = percolate_loop (Some ta) (int c) (h\<lparr>array := ?arr1\<rparr>)"
        using go sc ca tt lt lens
        by (subst percolate_loop.simps) (simp add: rd_int wr_int deref_def)
      have IH: "\<exists>j' arr'. percolate_loop (Some ta) (int c) (h\<lparr>array := ?arr1\<rparr>) = Inr (int j', h\<lparr>array := arr'\<rparr>)
        \<and> j' < n \<and> length arr' = length ?arr1
        \<and> (\<forall>i. 0 < i \<and> i < n \<longrightarrow>
              ?K ((arr'[j' := Some ta]) ! hparent i) \<le> ?K ((arr'[j' := Some ta]) ! i))
        \<and> mset (take n (arr'[j' := Some ta])) = mset (take n (?arr1[c := Some ta]))
        \<and> drop n arr' = drop n ?arr1"
      proof (rule less.hyps)
        show "n - c < n - j" using cj cn by simp
        show "c < n" by fact
        show "n \<le> length ?arr1" using less.prems(2) by simp
        show "\<forall>i<n. i \<noteq> c \<longrightarrow> (\<exists>a t. ?arr1 ! i = Some a \<and> ht_mem h a = Some t)"
          using less.prems(3) ca lens by (auto simp: nth_list_update)
        show "\<forall>i. 0 < i \<and> i < n \<and> hparent i \<noteq> c \<longrightarrow>
           ?K ((?arr1[c := Some ta]) ! hparent i) \<le> ?K ((?arr1[c := Some ta]) ! i)"
        proof (intro allI impI)
          fix i assume i: "0 < i \<and> i < n \<and> hparent i \<noteq> c"
          then have "hparent i < i" by (simp add: parent_less)
          with i have il: "i < length arr" "hparent i < length arr"
            using less.prems(2) by auto
          consider (a) "i = c" | (b) "i \<noteq> c" "hparent i = j" | (c) "i = j"
            | (d) "i \<noteq> c" "i \<noteq> j" "hparent i \<noteq> j" by blast
          then show "?K ((?arr1[c := Some ta]) ! hparent i) \<le> ?K ((?arr1[c := Some ta]) ! i)"
          proof cases
            case a
            then show ?thesis using lens pc cj ca tt lt by (simp add: key_def)
          next
            case b
            with i have "i = 2 * j + 1 \<or> i = 2 * j + 2" by (simp add: hparent_child)
            then have "?K (arr ! c) \<le> ?K (arr ! i)" and "i \<noteq> j" using cmin i by auto
            then show ?thesis using b lens il ca cj by simp
          next
            case c
            with i have j0: "0 < j" by simp
            then have pj: "hparent j < j" by (rule parent_less)
            have "?K (arr ! hparent j) \<le> ?K (arr ! c)"
              using less.prems(5) j0 pc cn by blast
            then show ?thesis using c pj cj lens ca by simp
          next
            case d
            have "?K ((arr[j := Some ta]) ! hparent i) \<le> ?K ((arr[j := Some ta]) ! i)"
              using less.prems(4) i d by blast
            then show ?thesis using d i lens il by simp
          qed
        qed
        show "\<forall>c'. 0 < c \<and> 0 < c' \<and> c' < n \<and> hparent c' = c \<longrightarrow>
           ?K (?arr1 ! hparent c) \<le> ?K (?arr1 ! c')"
        proof (intro allI impI)
          fix c' assume c': "0 < c \<and> 0 < c' \<and> c' < n \<and> hparent c' = c"
          then have "c < c'" using parent_less [of c'] by simp
          then have ne: "c' \<noteq> j" "hparent c' \<noteq> j" using cj c' by auto
          have "?K ((arr[j := Some ta]) ! hparent c') \<le> ?K ((arr[j := Some ta]) ! c')"
            using less.prems(4) c' ne by blast
          then have "?K (arr ! c) \<le> ?K (arr ! c')" using ne c' by simp
          then show "?K (?arr1 ! hparent c) \<le> ?K (?arr1 ! c')"
            using pc ne lens ca by simp
        qed
      qed
      then obtain j' arr' where r:
        "percolate_loop (Some ta) (int c) (h\<lparr>array := ?arr1\<rparr>) = Inr (int j', h\<lparr>array := arr'\<rparr>)"
        "j' < n" "length arr' = length ?arr1"
        "\<forall>i. 0 < i \<and> i < n \<longrightarrow>
              ?K ((arr'[j' := Some ta]) ! hparent i) \<le> ?K ((arr'[j' := Some ta]) ! i)"
        "mset (take n (arr'[j' := Some ta])) = mset (take n (?arr1[c := Some ta]))"
        "drop n arr' = drop n ?arr1"
        by blast
      let ?W = "take n (arr[j := Some ta])"
      have W: "take n (?arr1[c := Some ta]) = ?W[j := ?W ! c, c := ?W ! j]"
        using lens cn cj ca less.prems(1) by (simp add: take_update_swap)
      have "mset (take n (?arr1[c := Some ta])) = mset ?W"
        unfolding W using lens cn less.prems(1) by (intro mset_swap) simp_all
      moreover have "drop n ?arr1 = drop n arr" using less.prems(1) by simp
      ultimately show ?thesis using r step
        by (intro exI [of _ j'] exI [of _ arr']) simp
    qed
  qed
qed


lemma min_heap_iff:
  "min_heap (map K xs) \<longleftrightarrow> (\<forall>i. 0 < i \<and> i < length xs \<longrightarrow> K (xs ! hparent i) \<le> K (xs ! i))"
proof -
  have "hparent i < length xs" if "0 < i" "i < length xs" for i
    using parent_less [OF that(1)] that(2) by simp
  then show ?thesis
    unfolding min_heap_def list_all_iff by (auto simp: Suc_le_eq)
qed

lemma resize_copy_correct:
  "i \<le> n \<Longrightarrow> n \<le> length src \<Longrightarrow> n \<le> length temp \<Longrightarrow>
   resize_copy (int i) (int n) src temp = Inr (take i temp @ drop i (take n src) @ drop n temp)"
proof (induction "n - i" arbitrary: i temp)
  case 0
  then show ?case by (subst resize_copy.simps) simp
next
  case (Suc k)
  then have lt: "i < n" by simp
  have i1: "int i + 1 = int (Suc i)" by simp
  have IH: "resize_copy (int (Suc i)) (int n) src (temp[i := src ! i])
      = Inr (take (Suc i) (temp[i := src ! i]) @ drop (Suc i) (take n src) @ drop n (temp[i := src ! i]))"
    by (rule Suc.hyps(1)) (use Suc.hyps(2) Suc.prems lt in simp_all)
  have "drop i (take n src) = src ! i # drop (Suc i) (take n src)"
    using lt Suc.prems by (simp add: Cons_nth_drop_Suc [symmetric])
  moreover have "take (Suc i) (temp[i := src ! i]) = take i temp @ [src ! i]"
    using lt Suc.prems by (simp add: take_Suc_conv_app_nth)
  moreover have "drop n (temp[i := src ! i]) = drop n temp" using lt by simp
  ultimately show ?case
    using lt Suc.prems IH by (subst resize_copy.simps) (simp add: rd_int wr_int i1)
qed

lemma resize_correct:
  assumes "capacity h = int (length (array h))" "cur_size h = capacity h"
  shows "resize h = Inr (h\<lparr>capacity := 2 * capacity h,
                           array := array h @ replicate (length (array h)) None\<rparr>)"
proof -
  let ?n = "length (array h)"
  have "resize_copy (int 0) (int ?n) (array h) (replicate (nat (2 * capacity h)) None)
      = Inr (take 0 (replicate (nat (2 * capacity h)) None) @ drop 0 (take ?n (array h))
             @ drop ?n (replicate (nat (2 * capacity h)) None))"
    by (rule resize_copy_correct) (use assms in simp_all)
  moreover have "nat (2 * int ?n) - ?n = ?n" by simp
  ultimately show ?thesis using assms by (simp add: resize_def)
qed


lemma live_ptrD: "live_ptr h p \<Longrightarrow> \<exists>a t. p = Some a \<and> ht_mem h a = Some t \<and> a < ht_fresh h"
  by (auto simp: live_ptr_def split: option.splits)

lemma heap_wf_nth:
  assumes "heap_wf h" "i < nat (cur_size h)"
  shows "\<exists>a t. array h ! i = Some a \<and> ht_mem h a = Some t \<and> a < ht_fresh h"
proof -
  from assms have "i < length (heap_live h)" "heap_live h ! i = array h ! i"
    by (auto simp: heap_wf_def heap_live_def)
  moreover from assms have "list_all (live_ptr h) (heap_live h)" by (simp add: heap_wf_def)
  ultimately have "live_ptr h (array h ! i)" by (metis list_all_length)
  then show ?thesis by (rule live_ptrD)
qed

lemma heap_ordered_nth:
  assumes "heap_wf h" "heap_ordered h" "0 < i" "i < nat (cur_size h)"
  shows "key (ht_mem h) (array h ! hparent i) \<le> key (ht_mem h) (array h ! i)"
proof -
  from assms(1,4) have l: "i < length (heap_live h)" by (auto simp: heap_wf_def heap_live_def)
  from assms(2) have "key (ht_mem h) (heap_live h ! hparent i) \<le> key (ht_mem h) (heap_live h ! i)"
    using l assms(3) by (simp add: heap_ordered_def heap_keys_def min_heap_iff)
  moreover have "hparent i < i" using assms(3) by (rule parent_less)
  ultimately show ?thesis using assms(4) by (simp add: heap_live_def)
qed

lemma heap_add_timer_correct:
  assumes wf: "heap_wf h" and ord: "heap_ordered h" and cap: "0 < capacity h"
    and tt: "ht_mem h ta = Some tt" and fr: "ta < ht_fresh h" and new: "Some ta \<notin> set (heap_live h)"
  shows "\<exists>h'. heap_add_timer (Some ta) h = Inr h' \<and> heap_wf h' \<and> heap_ordered h' \<and> 0 < capacity h'
             \<and> mset (heap_live h') = add_mset (Some ta) (mset (heap_live h))
             \<and> ht_mem h' = ht_mem h \<and> ht_fired h' = ht_fired h \<and> ht_fresh h' = ht_fresh h"
proof -
  define n where "n = nat (cur_size h)"
  from wf have cs: "cur_size h = int n" and capl: "capacity h = int (length (array h))"
    and nl: "n \<le> length (array h)"
    by (auto simp: heap_wf_def n_def)
  define h1 where "h1 = (if cur_size h \<ge> capacity h
      then h\<lparr>capacity := 2 * capacity h, array := array h @ replicate (length (array h)) None\<rparr>
      else h)"
  have r1: "(if cur_size h \<ge> capacity h then resize h else Inr h) = Inr h1"
  proof (cases "cur_size h \<ge> capacity h")
    case True
    with wf have "cur_size h = capacity h" by (simp add: heap_wf_def)
    with capl True show ?thesis by (simp add: h1_def resize_correct)
  next
    case False then show ?thesis by (simp add: h1_def)
  qed
  have h1: "capacity h1 = int (length (array h1))" "n < length (array h1)"
    "take n (array h1) = heap_live h" "cur_size h1 = int n" "ht_mem h1 = ht_mem h"
    "ht_fired h1 = ht_fired h" "ht_fresh h1 = ht_fresh h" "0 < capacity h1"
    using cs capl nl cap by (auto simp: h1_def heap_live_def)
  have nth1: "array h1 ! i = array h ! i" if "i < n" for i
    using that nl by (auto simp: h1_def nth_append)
  define g where "g = h1\<lparr>cur_size := cur_size h1 + 1\<rparr>"
  have g: "array g = array h1" "ht_mem g = ht_mem h" "g\<lparr>array := array h1\<rparr> = g"
    by (simp_all add: g_def h1)
  let ?K = "key (ht_mem g)"
  have "\<exists>j' arr'. sift_up (Some ta) (int n) (g\<lparr>array := array h1\<rparr>) = Inr (int j', g\<lparr>array := arr'\<rparr>)
        \<and> j' \<le> n \<and> length arr' = length (array h1)
        \<and> (\<forall>i. 0 < i \<and> i \<le> n \<longrightarrow>
              ?K ((arr'[j' := Some ta]) ! hparent i) \<le> ?K ((arr'[j' := Some ta]) ! i))
        \<and> mset (take (Suc n) (arr'[j' := Some ta])) = mset (take (Suc n) ((array h1)[n := Some ta]))
        \<and> drop (Suc n) arr' = drop (Suc n) (array h1)"
  proof (rule sift_up_correct)
    show "n < length (array g)" using h1 g by simp
    show "ht_mem g ta = Some tt" using tt g by simp
    show "n \<le> n" by simp
    show "\<forall>i\<le>n. i \<noteq> n \<longrightarrow> (\<exists>a t. array h1 ! i = Some a \<and> ht_mem g a = Some t)"
    proof (intro allI impI)
      fix i assume "i \<le> n" "i \<noteq> n"
      then have il: "i < n" by simp
      then obtain a t where "array h ! i = Some a" "ht_mem h a = Some t"
        using heap_wf_nth [OF wf, of i] by (auto simp: n_def)
      then show "\<exists>a t. array h1 ! i = Some a \<and> ht_mem g a = Some t"
        using nth1 [OF il] g by simp
    qed
    show "length (array h1) = length (array g)" using g by simp
    show "\<forall>i. 0 < i \<and> i \<le> n \<and> i \<noteq> n \<longrightarrow>
       ?K ((array h1)[n := Some ta] ! hparent i) \<le> ?K ((array h1)[n := Some ta] ! i)"
    proof (intro allI impI)
      fix i assume i: "0 < i \<and> i \<le> n \<and> i \<noteq> n"
      then have il: "i < n" and pl: "hparent i < n" using parent_less [of i] by auto
      have "key (ht_mem h) (array h ! hparent i) \<le> key (ht_mem h) (array h ! i)"
        using heap_ordered_nth [OF wf ord] i il by (simp add: n_def)
      then show "?K ((array h1)[n := Some ta] ! hparent i) \<le> ?K ((array h1)[n := Some ta] ! i)"
        using il pl nth1 g by simp
    qed
    show "\<forall>c. 0 < n \<and> c \<le> n \<and> 0 < c \<and> hparent c = n \<longrightarrow>
       ?K (array h1 ! hparent n) \<le> ?K (array h1 ! c)"
      using parent_less by (metis leD)
  qed
  then obtain j' arr' where s: "sift_up (Some ta) (int n) g = Inr (int j', g\<lparr>array := arr'\<rparr>)"
    and j': "j' \<le> n" and len: "length arr' = length (array h1)"
    and ordV: "\<And>i. 0 < i \<Longrightarrow> i \<le> n \<Longrightarrow>
        ?K ((arr'[j' := Some ta]) ! hparent i) \<le> ?K ((arr'[j' := Some ta]) ! i)"
    and ms: "mset (take (Suc n) (arr'[j' := Some ta])) = mset (take (Suc n) ((array h1)[n := Some ta]))"
    unfolding g(3) by blast
  define h' where "h' = g\<lparr>array := arr'[j' := Some ta]\<rparr>"
  have gg: "h1\<lparr>cur_size := int n + 1\<rparr> = g" by (simp add: g_def h1)
  have res: "heap_add_timer (Some ta) h = Inr h'"
    using r1 s j' len h1(2,4)
    by (simp add: heap_add_timer_def gg wr_int h'_def)
  have live': "heap_live h' = take (Suc n) (arr'[j' := Some ta])"
    by (simp add: heap_live_def h'_def g_def h1 nat_add_distrib)
  have "take (Suc n) ((array h1)[n := Some ta]) = heap_live h @ [Some ta]"
    using h1(2,3) by (simp add: take_Suc_conv_app_nth)
  with ms live' have msl: "mset (heap_live h') = add_mset (Some ta) (mset (heap_live h))"
    by simp
  have same: "ht_mem h' = ht_mem h" "ht_fired h' = ht_fired h" "ht_fresh h' = ht_fresh h"
    "capacity h' = capacity h1" "cur_size h' = int (Suc n)" "length (array h') = length (array h1)"
    by (simp_all add: h'_def g_def h1 len)
  have lp: "live_ptr h' p = live_ptr h p" for p
    by (simp add: live_ptr_def same split: option.splits)
  have "set (heap_live h') = insert (Some ta) (set (heap_live h))"
    using msl by (metis mset_eq_setD set_mset_add_mset_insert set_mset_mset)
  moreover have "list_all (live_ptr h) (heap_live h)" using wf by (simp add: heap_wf_def)
  moreover have "live_ptr h (Some ta)" using tt fr by (simp add: live_ptr_def)
  ultimately have all: "list_all (live_ptr h') (heap_live h')"
    by (simp add: list_all_iff lp)
  have "distinct (heap_live h @ [Some ta])" using wf new by (simp add: heap_wf_def)
  then have dist: "distinct (heap_live h')"
    using msl by (metis mset_eq_imp_distinct_iff mset.simps(2) mset_append union_mset_add_mset_right
        add.right_neutral mset.simps(1))
  have wf': "heap_wf h'"
    using all dist same h1(1,2) by (simp add: heap_wf_def)
  have "heap_ordered h'"
    unfolding heap_ordered_def heap_keys_def min_heap_iff live'
  proof (intro allI impI)
    fix i assume i: "0 < i \<and> i < length (take (Suc n) (arr'[j' := Some ta]))"
    then have il: "i \<le> n" by simp
    then have "hparent i < Suc n" using parent_less [of i] i by simp
    with ordV [of i] i il show "key (ht_mem h') (take (Suc n) (arr'[j' := Some ta]) ! hparent i)
        \<le> key (ht_mem h') (take (Suc n) (arr'[j' := Some ta]) ! i)"
      by (simp add: same g)
  qed
  with res wf' msl same h1(8) show ?thesis by auto
qed


lemma key_upd_other: "p \<noteq> Some a \<Longrightarrow> p \<noteq> None \<Longrightarrow> key (m(a := v)) p = key m p"
  by (cases p) (auto simp: key_def)

lemma heap_pop_timer_correct:
  assumes wf: "heap_wf h" and ord: "heap_ordered h" and ne: "0 < cur_size h"
  shows "\<exists>h' a0 t0. array h ! 0 = Some a0 \<and> ht_mem h a0 = Some t0 \<and> heap_pop_timer h = Inr h'
          \<and> heap_wf h' \<and> heap_ordered h'
          \<and> mset (heap_live h) = add_mset (Some a0) (mset (heap_live h'))
          \<and> ht_mem h' = (ht_mem h)(a0 := None) \<and> ht_fired h' = ht_fired h
          \<and> ht_fresh h' = ht_fresh h \<and> capacity h' = capacity h \<and> cur_size h' = cur_size h - 1
          \<and> length (array h') = length (array h)"
proof -
  define n where "n = nat (cur_size h)"
  define m where "m = n - 1"
  from wf ne have cs: "cur_size h = int n" and n0: "0 < n" and nl: "n \<le> length (array h)"
    and capl: "capacity h = int (length (array h))" and dist: "distinct (take n (array h))"
    by (auto simp: heap_wf_def n_def heap_live_def)
  have nm: "n = Suc m" using n0 by (simp add: m_def)
  from heap_wf_nth [OF wf, of 0] n0 obtain a0 t0 where a0: "array h ! 0 = Some a0"
    "ht_mem h a0 = Some t0" "a0 < ht_fresh h"
    by (auto simp: n_def)
  have ne0: "array h ! i \<noteq> Some a0" if "0 < i" "i < n" for i
  proof
    assume "array h ! i = Some a0"
    then have "take n (array h) ! i = take n (array h) ! 0" using that a0 n0 by simp
    moreover have "i < length (take n (array h))" "0 < length (take n (array h))"
      using that n0 nl by simp_all
    ultimately have "i = 0" using dist by (metis nth_eq_iff_index_eq)
    with that show False by simp
  qed
  define h1 where "h1 = h\<lparr>ht_mem := (ht_mem h)(a0 := None), cur_size := int m\<rparr>"
  have h1cs: "cur_size h1 = int m" by (simp add: h1_def)
  define arr0 where "arr0 = (array h)[0 := array h ! m]"
  define g where "g = h1\<lparr>array := arr0\<rparr>"
  have nonempty: "array h \<noteq> []" using nl n0 by auto
  have pop: "heap_pop_timer h = percolate_down 0 g"
    using ne a0 n0 nl cs nm nonempty
    by (simp add: heap_pop_timer_def heap_empty_def rd_def wr_def Let_def g_def arr0_def h1_def)
  have gf: "ht_mem g = (ht_mem h)(a0 := None)" "ht_fired g = ht_fired h" "ht_fresh g = ht_fresh h"
    "capacity g = capacity h" "cur_size g = int m" "array g = arr0" "length arr0 = length (array h)"
    by (simp_all add: g_def h1_def arr0_def cs nm)
  have len0: "0 < length arr0" using gf(7) n0 nl by linarith
  have arr0_ne: "arr0 \<noteq> []" using nonempty by (simp add: arr0_def)
  have rd0: "rd (array g) 0 = Inr (array h ! m)"
    using len0 nl nm by (simp add: gf rd_def arr0_def)
  show ?thesis
  proof (cases "m = 0")
    case True
    have "percolate_loop (array h ! m) 0 g = Inr (0, g)"
      by (subst percolate_loop.simps) (simp add: gf True)
    moreover have "arr0[0 := array h ! m] = array h"
      using True by (simp add: arr0_def)
    ultimately have "percolate_down 0 g = Inr (g\<lparr>array := array h\<rparr>)"
      using rd0 arr0_ne by (simp add: percolate_down_def wr_def gf)
    moreover have "heap_live (g\<lparr>array := array h\<rparr>) = []" by (simp add: heap_live_def gf True)
    moreover have "heap_live h = [Some a0]"
      using a0 nonempty nm True by (cases "array h") (simp_all add: heap_live_def cs)
    ultimately show ?thesis
      using pop a0 gf capl cs nm True
      by (auto simp: heap_wf_def heap_ordered_def heap_keys_def min_heap_def)
  next
    case False
    then have m0: "0 < m" by simp
    from heap_wf_nth [OF wf, of m] nm obtain la lt where la: "array h ! m = Some la"
      "ht_mem h la = Some lt" "la < ht_fresh h"
      by (auto simp: n_def)
    have la0: "la \<noteq> a0" using ne0 [of m] la m0 nm by auto
    have arr00: "arr0[0 := Some la] = arr0" using la by (simp add: arr0_def)
    let ?K = "key (ht_mem g)"
    have Kg: "?K (array h ! i) = key (ht_mem h) (array h ! i)" if "0 < i" "i < n" for i
    proof -
      from heap_wf_nth [OF wf, of i] that obtain a where "array h ! i = Some a"
        by (auto simp: n_def)
      with ne0 [OF that] show ?thesis by (simp add: gf key_upd_other)
    qed
    have "\<exists>j' arr'. percolate_loop (Some la) (int 0) (g\<lparr>array := arr0\<rparr>) = Inr (int j', g\<lparr>array := arr'\<rparr>)
        \<and> j' < m \<and> length arr' = length arr0
        \<and> (\<forall>i. 0 < i \<and> i < m \<longrightarrow>
              ?K ((arr'[j' := Some la]) ! hparent i) \<le> ?K ((arr'[j' := Some la]) ! i))
        \<and> mset (take m (arr'[j' := Some la])) = mset (take m (arr0[0 := Some la]))
        \<and> drop m arr' = drop m arr0"
    proof (rule percolate_loop_correct)
      show "cur_size g = int m" by (simp add: gf)
      show "ht_mem g la = Some lt" using la la0 by (simp add: gf)
      show "0 < m" by fact
      show "m \<le> length arr0" using nl nm gf by simp
      show "\<forall>i<m. i \<noteq> 0 \<longrightarrow> (\<exists>a t. arr0 ! i = Some a \<and> ht_mem g a = Some t)"
      proof (intro allI impI)
        fix i assume i: "i < m" "i \<noteq> 0"
        then obtain a t where a: "array h ! i = Some a" "ht_mem h a = Some t"
          using heap_wf_nth [OF wf, of i] nm by (auto simp: n_def)
        moreover have "a \<noteq> a0" using ne0 [of i] i nm a by auto
        ultimately show "\<exists>a t. arr0 ! i = Some a \<and> ht_mem g a = Some t"
          using i by (auto simp: arr0_def gf)
      qed
      show "\<forall>i. 0 < i \<and> i < m \<and> hparent i \<noteq> 0 \<longrightarrow>
         ?K (arr0[0 := Some la] ! hparent i) \<le> ?K (arr0[0 := Some la] ! i)"
      proof (intro allI impI)
        fix i assume i: "0 < i \<and> i < m \<and> hparent i \<noteq> 0"
        then have pl: "hparent i < i" by (simp add: parent_less)
        have "key (ht_mem h) (array h ! hparent i) \<le> key (ht_mem h) (array h ! i)"
          using heap_ordered_nth [OF wf ord, of i] i nm by (simp add: n_def)
        then have "?K (array h ! hparent i) \<le> ?K (array h ! i)"
          using Kg [of i] Kg [of "hparent i"] i pl nm by simp
        then show "?K (arr0[0 := Some la] ! hparent i) \<le> ?K (arr0[0 := Some la] ! i)"
          unfolding arr00 using i by (simp add: arr0_def)
      qed
      show "\<forall>c. 0 < (0::nat) \<and> 0 < c \<and> c < m \<and> hparent c = 0 \<longrightarrow>
         ?K (arr0 ! hparent 0) \<le> ?K (arr0 ! c)"
        by simp
    qed
    then obtain j' arr' where pl: "percolate_loop (Some la) 0 g = Inr (int j', g\<lparr>array := arr'\<rparr>)"
      and j': "j' < m" and len: "length arr' = length arr0"
      and ordV: "\<And>i. 0 < i \<Longrightarrow> i < m \<Longrightarrow>
              ?K ((arr'[j' := Some la]) ! hparent i) \<le> ?K ((arr'[j' := Some la]) ! i)"
      and ms: "mset (take m (arr'[j' := Some la])) = mset (take m arr0)"
      unfolding arr00 by (auto simp: g_def)
    define h' where "h' = g\<lparr>array := arr'[j' := Some la]\<rparr>"
    have res: "percolate_down 0 g = Inr h'"
      using rd0 la pl j' len gf nl nm
      by (simp add: percolate_down_def wr_int h'_def)
    have same: "ht_mem h' = (ht_mem h)(a0 := None)" "ht_fired h' = ht_fired h"
      "ht_fresh h' = ht_fresh h" "capacity h' = capacity h" "cur_size h' = int m"
      "length (array h') = length (array h)"
      by (simp_all add: h'_def gf len)
    have live': "heap_live h' = take m (arr'[j' := Some la])"
      by (simp add: heap_live_def h'_def gf)
    from m0 obtain k where mk: "m = Suc k" by (cases m) auto
    from nonempty a0 obtain list where al: "array h = Some a0 # list"
      by (cases "array h") auto
    have kl: "k < length list" "list ! k = Some la"
      using nl nm mk al la by auto
    have tk: "take n (array h) = Some a0 # tl (take m (array h)) @ [Some la]"
      using kl by (simp add: nm mk al take_Suc_conv_app_nth)
    have tk0: "take m arr0 = Some la # tl (take m (array h))"
      using kl by (simp add: arr0_def mk al)
    have msl: "mset (heap_live h) = add_mset (Some a0) (mset (heap_live h'))"
      unfolding live' ms tk0 by (simp add: heap_live_def cs tk)
    then have "mset (Some a0 # heap_live h') = mset (heap_live h)" by simp
    then have "distinct (Some a0 # heap_live h')"
      using dist by (metis mset_eq_imp_distinct_iff heap_live_def cs nat_int)
    then have dist': "distinct (heap_live h')" and notin: "Some a0 \<notin> set (heap_live h')"
      by simp_all
    have sub: "set (heap_live h') \<subseteq> set (heap_live h)"
      using msl by (metis mset_eq_setD set_mset_add_mset_insert set_mset_mset subset_insertI)
    have "list_all (live_ptr h') (heap_live h')"
      unfolding list_all_iff
    proof
      fix p assume p: "p \<in> set (heap_live h')"
      with sub wf have "live_ptr h p" by (auto simp: heap_wf_def list_all_iff)
      moreover from p notin have "p \<noteq> Some a0" by auto
      ultimately show "live_ptr h' p"
        by (auto simp: live_ptr_def same split: option.splits)
    qed
    then have wf': "heap_wf h'"
      using dist' same capl nl nm by (simp add: heap_wf_def)
    have "heap_ordered h'"
      unfolding heap_ordered_def heap_keys_def min_heap_iff live'
    proof (intro allI impI)
      fix i assume i: "0 < i \<and> i < length (take m (arr'[j' := Some la]))"
      then have il: "i < m" by simp
      then have "hparent i < m" using parent_less [of i] i by simp
      with ordV [of i] i il show "key (ht_mem h') (take m (arr'[j' := Some la]) ! hparent i)
          \<le> key (ht_mem h') (take m (arr'[j' := Some la]) ! i)"
        by (simp add: same gf)
    qed
    with pop res wf' msl same a0 cs nm show ?thesis by auto
  qed
qed


lemma heap_root_min:
  assumes wf: "heap_wf h" and ord: "heap_ordered h"
  shows "i < nat (cur_size h) \<Longrightarrow> key (ht_mem h) (array h ! 0) \<le> key (ht_mem h) (array h ! i)"
proof (induction i rule: less_induct)
  case (less i)
  show ?case
  proof (cases "i = 0")
    case True then show ?thesis by simp
  next
    case False
    then have i0: "0 < i" by simp
    then have pl: "hparent i < i" by (rule parent_less)
    with less.prems have "hparent i < nat (cur_size h)" by simp
    with less.IH [OF pl] have "key (ht_mem h) (array h ! 0) \<le> key (ht_mem h) (array h ! hparent i)" .
    also have "\<dots> \<le> key (ht_mem h) (array h ! i)"
      using heap_ordered_nth [OF wf ord i0 less.prems] .
    finally show ?thesis .
  qed
qed

lemma heap_live_nth:
  assumes "heap_wf h" "p \<in> set (heap_live h)"
  shows "\<exists>i < nat (cur_size h). array h ! i = p"
proof -
  from assms(2) obtain i where "i < length (heap_live h)" "heap_live h ! i = p"
    by (auto simp: in_set_conv_nth)
  with assms(1) show ?thesis by (auto simp: heap_live_def heap_wf_def)
qed

lemma heap_fired_upd [simp]:
  "heap_wf (h\<lparr>ht_fired := x\<rparr>) = heap_wf h"
  "heap_ordered (h\<lparr>ht_fired := x\<rparr>) = heap_ordered h"
  "heap_live (h\<lparr>ht_fired := x\<rparr>) = heap_live h"
proof -
  have "live_ptr (h\<lparr>ht_fired := x\<rparr>) = live_ptr h"
    by (simp add: fun_eq_iff live_ptr_def split: option.splits)
  then show "heap_wf (h\<lparr>ht_fired := x\<rparr>) = heap_wf h"
    by (simp add: heap_wf_def heap_live_def)
qed (simp_all add: heap_ordered_def heap_keys_def heap_live_def)

lemma heap_tick_loop_correct:
  "heap_wf h \<Longrightarrow> heap_ordered h \<Longrightarrow> 0 < length (array h) \<Longrightarrow>
   (heap_tick_loop cur (array h ! 0) h = Inl BadCall
      \<and> (\<exists>p\<in>set (heap_live h). heap_due cur h p \<and> heap_cb h p = Unset))
   \<or> (\<exists>h' es. heap_tick_loop cur (array h ! 0) h = Inr h' \<and> heap_wf h' \<and> heap_ordered h'
         \<and> length (array h') = length (array h)
         \<and> mset (heap_live h') = filter_mset (\<lambda>p. \<not> heap_due cur h p) (mset (heap_live h))
         \<and> ht_mem h' = (\<lambda>a. if Some a \<in> set (heap_live h) \<and> heap_due cur h (Some a) then None
                             else ht_mem h a)
         \<and> ht_fired h' = ht_fired h @ es \<and> ht_fresh h' = ht_fresh h
         \<and> distinct (map ev_timer es)
         \<and> set es = (\<Union>p \<in> {p \<in> set (heap_live h). heap_due cur h p}. set (heap_event h p)))"
proof (induction "nat (cur_size h)" arbitrary: h)
  case 0
  then have "cur_size h = 0" by (simp add: heap_wf_def)
  then have "heap_tick_loop cur (array h ! 0) h = Inr h" "heap_live h = []"
    by (simp_all add: heap_tick_loop.simps heap_empty_def heap_live_def)
  with 0 show ?case by (intro disjI2 exI [of _ h] exI [of _ "[]"]) simp
next
  case (Suc k)
  note wf = Suc.prems(1) and ord = Suc.prems(2)
  from Suc.hyps(2) have ne: "0 < cur_size h" by simp
  from heap_pop_timer_correct [OF wf ord ne] obtain a0 t0 where
    a0: "array h ! 0 = Some a0" "ht_mem h a0 = Some t0" by blast
  have a0live: "Some a0 \<in> set (heap_live h)"
    using a0 ne Suc.prems(3) by (auto simp: heap_live_def in_set_conv_nth intro!: exI [of _ 0])
  have nemp: "\<not> heap_empty h" using ne by (simp add: heap_empty_def)
  show ?case
  proof (cases "ht_expire t0 > cur")
    case True
    have res: "heap_tick_loop cur (array h ! 0) h = Inr h"
      using nemp a0 True by (subst heap_tick_loop.simps) simp
    have nd: "\<not> heap_due cur h p" if "p \<in> set (heap_live h)" for p
    proof -
      from heap_live_nth [OF wf that] obtain i where "i < nat (cur_size h)" "array h ! i = p"
        by blast
      with heap_root_min [OF wf ord, of i] a0 True show ?thesis
        by (simp add: heap_due_def key_def)
    qed
    then have "filter_mset (\<lambda>p. \<not> heap_due cur h p) (mset (heap_live h)) = mset (heap_live h)"
      by (simp add: filter_mset_eq_conv)
    moreover have "ht_mem h = (\<lambda>a. if Some a \<in> set (heap_live h) \<and> heap_due cur h (Some a) then None
                             else ht_mem h a)"
      using nd by (auto simp: fun_eq_iff)
    moreover have "(\<Union>p \<in> {p \<in> set (heap_live h). heap_due cur h p}. set (heap_event h p)) = {}"
      using nd by auto
    ultimately show ?thesis using res wf ord
      by (intro disjI2 exI [of _ h] exI [of _ "[]"]) simp
  next
    case False
    then have due0: "heap_due cur h (Some a0)" using a0 by (simp add: heap_due_def key_def)
    show ?thesis
    proof (cases "ht_cb_func t0 = Unset")
      case True
      have "heap_fire_top h = Inl BadCall"
        using a0 True Suc.prems(3) by (simp add: heap_fire_top_def rd_def)
      then have "heap_tick_loop cur (array h ! 0) h = Inl BadCall"
        using nemp a0 False by (subst heap_tick_loop.simps) simp
      moreover have "heap_cb h (Some a0) = Unset" using a0 True by (simp add: heap_cb_def)
      ultimately show ?thesis using a0live due0 by blast
    next
      case cb: False
      define hf where "hf = h\<lparr>ht_fired := ht_fired h @ heap_event h (Some a0)\<rparr>"
      have fire: "heap_fire_top h = heap_pop_timer hf"
        using a0 cb Suc.prems(3)
        by (cases "ht_cb_func t0")
           (simp_all add: heap_fire_top_def rd_def hf_def heap_event_def heap_cb_def)
      have hf: "heap_wf hf" "heap_ordered hf" "0 < cur_size hf" "array hf = array h"
        "ht_mem hf = ht_mem h" "ht_fresh hf = ht_fresh h" "heap_live hf = heap_live h"
        "ht_fired hf = ht_fired h @ heap_event h (Some a0)" "cur_size hf = cur_size h"
        using wf ord ne by (simp_all add: hf_def)
      from heap_pop_timer_correct [OF hf(1,2,3)] a0 hf obtain h1 where
        pop: "heap_pop_timer hf = Inr h1" and wf1: "heap_wf h1" and ord1: "heap_ordered h1"
        and ms1: "mset (heap_live h) = add_mset (Some a0) (mset (heap_live h1))"
        and mem1: "ht_mem h1 = (ht_mem h)(a0 := None)"
        and fired1: "ht_fired h1 = ht_fired h @ heap_event h (Some a0)"
        and fresh1: "ht_fresh h1 = ht_fresh h"
        and cs1: "cur_size h1 = cur_size h - 1"
        and len1: "length (array h1) = length (array h)"
        by auto
      have step: "heap_tick_loop cur (array h ! 0) h = heap_tick_loop cur (array h1 ! 0) h1"
        using nemp a0 False fire pop len1 Suc.prems(3)
        by (subst heap_tick_loop.simps) (simp add: rd_def)
      have k: "k = nat (cur_size h1)" using Suc.hyps(2) cs1 by simp
      have dist: "distinct (Some a0 # heap_live h1)"
        using wf ms1 by (metis heap_wf_def mset.simps(2) mset_eq_imp_distinct_iff)
      then have notin: "Some a0 \<notin> set (heap_live h1)" by simp
      have set1: "set (heap_live h) = insert (Some a0) (set (heap_live h1))"
        using ms1 by (metis mset_eq_setD set_mset_add_mset_insert set_mset_mset)
      have other: "\<exists>a. p = Some a \<and> a \<noteq> a0" if "p \<in> set (heap_live h1)" for p
      proof -
        from that wf1 have "live_ptr h1 p" by (auto simp: heap_wf_def list_all_iff)
        then obtain a where "p = Some a" by (auto dest: live_ptrD)
        with that notin show ?thesis by auto
      qed
      have due1: "heap_due cur h1 p = heap_due cur h p" if "p \<in> set (heap_live h1)" for p
        using other [OF that] by (auto simp: heap_due_def key_def mem1)
      have cb1: "heap_cb h1 p = heap_cb h p" if "p \<in> set (heap_live h1)" for p
        using other [OF that] by (auto simp: heap_cb_def mem1)
      have ev1: "heap_event h1 p = heap_event h p" if "p \<in> set (heap_live h1)" for p
        using other [OF that] cb1 [OF that]
        by (auto simp: heap_event_def mem1 split: callback.splits)
      from Suc.hyps(1) [OF k wf1 ord1] len1 Suc.prems(3)
      consider (bad) "heap_tick_loop cur (array h1 ! 0) h1 = Inl BadCall"
          "\<exists>p\<in>set (heap_live h1). heap_due cur h1 p \<and> heap_cb h1 p = Unset"
        | (ok) h' es where "heap_tick_loop cur (array h1 ! 0) h1 = Inr h'" "heap_wf h'"
          "heap_ordered h'" "length (array h') = length (array h1)"
          "mset (heap_live h') = filter_mset (\<lambda>p. \<not> heap_due cur h1 p) (mset (heap_live h1))"
          "ht_mem h' = (\<lambda>a. if Some a \<in> set (heap_live h1) \<and> heap_due cur h1 (Some a) then None
                             else ht_mem h1 a)"
          "ht_fired h' = ht_fired h1 @ es" "ht_fresh h' = ht_fresh h1"
          "distinct (map ev_timer es)"
          "set es = (\<Union>p \<in> {p \<in> set (heap_live h1). heap_due cur h1 p}. set (heap_event h1 p))"
        by auto
      then show ?thesis
      proof cases
        case bad
        from bad(2) obtain p where "p \<in> set (heap_live h1)" "heap_due cur h1 p" "heap_cb h1 p = Unset"
          by blast
        then have "p \<in> set (heap_live h)" "heap_due cur h p" "heap_cb h p = Unset"
          using set1 due1 cb1 by auto
        with bad(1) step show ?thesis by auto
      next
        case ok
        let ?es = "heap_event h (Some a0) @ es"
        have f1: "filter_mset (\<lambda>p. \<not> heap_due cur h1 p) (mset (heap_live h1))
            = filter_mset (\<lambda>p. \<not> heap_due cur h p) (mset (heap_live h))"
          unfolding ms1 using due0 due1 by (auto intro: filter_mset_cong)
        have f2: "(\<lambda>a. if Some a \<in> set (heap_live h1) \<and> heap_due cur h1 (Some a) then None
                             else ht_mem h1 a)
            = (\<lambda>a. if Some a \<in> set (heap_live h) \<and> heap_due cur h (Some a) then None
                             else ht_mem h a)"
          using due0 due1 notin by (auto simp: fun_eq_iff set1 mem1)
        have tim: "ev_timer e \<noteq> a0" if "e \<in> set es" for e
        proof -
          from that ok(10) obtain p where p: "p \<in> set (heap_live h1)" "e \<in> set (heap_event h1 p)"
            by auto
          from other [OF p(1)] obtain a where "p = Some a" "a \<noteq> a0" by blast
          with p(2) show ?thesis by (auto simp: heap_event_def split: callback.splits)
        qed
        have "ev_timer e = a0" if "e \<in> set (heap_event h (Some a0))" for e
          using that by (auto simp: heap_event_def split: callback.splits)
        moreover have "distinct (map ev_timer (heap_event h (Some a0)))"
          by (auto simp: heap_event_def split: callback.splits)
        ultimately have f3: "distinct (map ev_timer ?es)"
          using ok(9) tim by (auto simp: image_iff)
        have f4: "set ?es = (\<Union>p \<in> {p \<in> set (heap_live h). heap_due cur h p}. set (heap_event h p))"
          using ok(10) due0 due1 ev1 by (auto simp: set1)
        show ?thesis
          using step ok(1,2,3,4,5,6,7,8) f1 f2 f3 f4 len1 fired1 fresh1
          by (intro disjI2 exI [of _ h'] exI [of _ ?es]) simp
      qed
    qed
  qed
qed


lemma heap_add_timer_cap0:
  assumes "heap_wf h" "capacity h = 0"
  shows "heap_add_timer (Some ta) h = Inl OutOfBounds"
proof -
  from assms have e: "array h = []" "cur_size h = 0" by (auto simp: heap_wf_def)
  have "resize h = Inr (h\<lparr>capacity := 2 * capacity h, array := array h @ replicate (length (array h)) None\<rparr>)"
    by (rule resize_correct) (use assms e in simp_all)
  then show ?thesis
    using assms e by (simp add: heap_add_timer_def sift_up.simps wr_def)
qed

lemma heap_timer_new_correct:
  fixes e :: int and f :: callback and d :: nat
  assumes wf: "heap_wf h" and ord: "heap_ordered h"
  defines "ta \<equiv> ht_fresh h"
  defines "h1 \<equiv> snd (heap_timer_new e f d h)"
  shows "heap_timer_new e f d h = (Some ta, h1)" "heap_wf h1" "heap_ordered h1"
    "ht_mem h1 ta = Some \<lparr>ht_expire = e, ht_cb_func = f, ht_user_data = d\<rparr>"
    "ta < ht_fresh h1" "Some ta \<notin> set (heap_live h1)" "heap_live h1 = heap_live h"
    "capacity h1 = capacity h" "ht_fired h1 = ht_fired h" "array h1 = array h"
    "\<And>p. p \<in> set (heap_live h) \<Longrightarrow> heap_cb h1 p = heap_cb h p"
    "\<And>p. p \<in> set (heap_live h) \<Longrightarrow> key (ht_mem h1) p = key (ht_mem h) p"
proof -
  have h1: "h1 = h\<lparr>ht_mem := (ht_mem h)(ta \<mapsto> \<lparr>ht_expire = e, ht_cb_func = f, ht_user_data = d\<rparr>),
                    ht_fresh := Suc ta\<rparr>"
    by (simp add: h1_def ta_def heap_timer_new_def)
  show "heap_timer_new e f d h = (Some ta, h1)" by (simp add: h1 ta_def heap_timer_new_def)
  show live: "heap_live h1 = heap_live h" by (simp add: h1 heap_live_def)
  have old: "\<exists>a t. p = Some a \<and> a < ta \<and> ht_mem h a = Some t" if "p \<in> set (heap_live h)" for p
  proof -
    from that wf have "live_ptr h p" by (auto simp: heap_wf_def list_all_iff)
    then show ?thesis by (auto dest: live_ptrD simp: ta_def)
  qed
  show k: "key (ht_mem h1) p = key (ht_mem h) p" if "p \<in> set (heap_live h)" for p
    using old [OF that] by (auto simp: h1 key_def)
  show "heap_cb h1 p = heap_cb h p" if "p \<in> set (heap_live h)" for p
    using old [OF that] by (auto simp: h1 heap_cb_def)
  show "Some ta \<notin> set (heap_live h1)" using old live by fastforce
  have "list_all (live_ptr h1) (heap_live h)"
    unfolding list_all_iff using old by (fastforce simp: live_ptr_def h1)
  then show "heap_wf h1" using wf live by (simp add: heap_wf_def) (simp add: h1)
  have "heap_keys h1 = heap_keys h" using k by (simp add: heap_keys_def live)
  then show "heap_ordered h1" using ord by (simp add: heap_ordered_def)
qed (simp_all add: h1_def ta_def heap_timer_new_def)

lemma heap_del_timer_correct:
  assumes "ht_mem h a = Some t"
  shows "heap_del_timer (Some a) h = Inr (h\<lparr>ht_mem := (ht_mem h)(a \<mapsto> t\<lparr>ht_cb_func := Null\<rparr>)\<rparr>)"
  using assms by (simp add: heap_del_timer_def upd_def)

lemma heap_del_timer_inv:
  assumes wf: "heap_wf h" and ord: "heap_ordered h" and r: "heap_del_timer (Some a) h = Inr h'"
  shows "heap_wf h'" "heap_ordered h'" "heap_live h' = heap_live h" "array h' = array h"
    "\<And>p. heap_cb h p \<noteq> Unset \<Longrightarrow> heap_cb h' p \<noteq> Unset"
proof -
  from r obtain t where t: "ht_mem h a = Some t"
    and h': "h' = h\<lparr>ht_mem := (ht_mem h)(a \<mapsto> t\<lparr>ht_cb_func := Null\<rparr>)\<rparr>"
    by (auto simp: heap_del_timer_def upd_def split: option.splits)
  show live: "heap_live h' = heap_live h" by (simp add: h' heap_live_def)
  show "array h' = array h" by (simp add: h')
  have "live_ptr h' = live_ptr h"
    using t by (auto simp: fun_eq_iff live_ptr_def h' split: option.splits)
  then show "heap_wf h'" using wf live by (simp add: heap_wf_def) (simp add: h')
  have "key (ht_mem h') = key (ht_mem h)" using t by (auto simp: fun_eq_iff key_def h')
  then show "heap_ordered h'" using ord live by (simp add: heap_ordered_def heap_keys_def)
  show "heap_cb h' p \<noteq> Unset" if "heap_cb h p \<noteq> Unset" for p
    using that t by (auto simp: heap_cb_def h')
qed

lemma heap_tick_correct:
  assumes "heap_wf h" "heap_ordered h" "0 < length (array h)"
  shows "heap_tick cur h = heap_tick_loop cur (array h ! 0) h"
  using assms by (simp add: heap_tick_def rd_def)

lemma heap_step_Schedule:
  "heap_step (Schedule e f d) h
     = heap_add_timer (Some (ht_fresh h)) (snd (heap_timer_new e f d h))"
  by (simp add: heap_timer_new_def)

lemma heap_step_inv:
  assumes wf: "heap_wf h" and ord: "heap_ordered h" and r: "heap_step x h = Inr h'"
  shows "heap_wf h' \<and> heap_ordered h'"
proof (cases x)
  case (Schedule e f d)
  note n = heap_timer_new_correct [OF wf ord, where e = e and f = f and d = d]
  from r Schedule have a: "heap_add_timer (Some (ht_fresh h)) (snd (heap_timer_new e f d h)) = Inr h'"
    by (simp only: heap_step_Schedule)
  have "0 < capacity (snd (heap_timer_new e f d h))"
    using heap_add_timer_cap0 [OF n(2), of "ht_fresh h"] a n(2) by (cases "capacity (snd (heap_timer_new e f d h)) = 0") (auto simp: heap_wf_def)
  from heap_add_timer_correct [OF n(2,3) this n(4,5,6)] a show ?thesis by auto
next
  case (Cancel a)
  with r heap_del_timer_inv [OF wf ord] show ?thesis by simp
next
  case (Tick cur)
  show ?thesis
  proof (cases "0 < length (array h)")
    case True
    with heap_tick_loop_correct [OF wf ord True, of cur] heap_tick_correct [OF wf ord True, of cur] r Tick
    show ?thesis by auto
  next
    case False
    with r Tick show ?thesis by (simp add: heap_tick_def rd_def)
  qed
qed

lemma heap_run_inv:
  "heap_wf h \<Longrightarrow> heap_ordered h \<Longrightarrow> heap_run ops h = Inr h' \<Longrightarrow> heap_wf h' \<and> heap_ordered h'"
proof (induction ops arbitrary: h)
  case Nil then show ?case by simp
next
  case (Cons x xs)
  from Cons.prems(3) obtain h1 where s: "heap_step x h = Inr h1" and r: "heap_run xs h1 = Inr h'"
    by (auto split: sum.splits)
  from heap_step_inv [OF Cons.prems(1,2) s] Cons.IH [OF _ _ r] show ?case by simp
qed

lemma heap_step_total:
  assumes g: "heap_good h" and x: "heap_op_plain x"
  shows "\<exists>h'. heap_step x h = Inr h' \<and> heap_good h'"
proof -
  from g have wf: "heap_wf h" and ord: "heap_ordered h" and cap: "0 < capacity h"
    and cbs: "\<And>p. p \<in> set (heap_live h) \<Longrightarrow> heap_cb h p \<noteq> Unset"
    by (auto simp: heap_good_def)
  show ?thesis
  proof (cases x)
    case (Schedule e f d)
    with x have f: "f \<noteq> Unset" by simp
    note n = heap_timer_new_correct [OF wf ord, where e = e and f = f and d = d]
    let ?h1 = "snd (heap_timer_new e f d h)"
    have "0 < capacity ?h1" using n(8) cap by simp
    from heap_add_timer_correct [OF n(2,3) this n(4,5,6)] obtain h' where
      a: "heap_add_timer (Some (ht_fresh h)) ?h1 = Inr h'" and wf': "heap_wf h'" "heap_ordered h'"
      "0 < capacity h'" and ms: "mset (heap_live h') = add_mset (Some (ht_fresh h)) (mset (heap_live ?h1))"
      and mem: "ht_mem h' = ht_mem ?h1"
      by blast
    have "set (heap_live h') = insert (Some (ht_fresh h)) (set (heap_live h))"
      using ms n(7) by (metis mset_eq_setD set_mset_add_mset_insert set_mset_mset)
    moreover have "heap_cb h' p = heap_cb ?h1 p" for p by (simp add: heap_cb_def mem)
    moreover have "heap_cb ?h1 (Some (ht_fresh h)) = f" using n(4) by (simp add: heap_cb_def)
    ultimately have "\<forall>p\<in>set (heap_live h'). heap_cb h' p \<noteq> Unset"
      using cbs n(11) f by auto
    with a wf' Schedule show ?thesis
      by (simp only: heap_step_Schedule heap_good_def) blast
  next
    case (Cancel a)
    with x show ?thesis by simp
  next
    case (Tick cur)
    from wf cap have len: "0 < length (array h)" by (simp add: heap_wf_def)
    from heap_tick_loop_correct [OF wf ord len, of cur] cbs obtain h' where
      r: "heap_tick_loop cur (array h ! 0) h = Inr h'" and wf': "heap_wf h'" "heap_ordered h'"
      "length (array h') = length (array h)"
      and ms: "mset (heap_live h') = filter_mset (\<lambda>p. \<not> heap_due cur h p) (mset (heap_live h))"
      and mem: "ht_mem h' = (\<lambda>a. if Some a \<in> set (heap_live h) \<and> heap_due cur h (Some a) then None
                             else ht_mem h a)"
      by blast
    have sub: "set (heap_live h') = {p \<in> set (heap_live h). \<not> heap_due cur h p}"
      using ms by (metis mset_eq_setD set_mset_filter set_mset_mset)
    have "heap_cb h' p = heap_cb h p" if "p \<in> set (heap_live h')" for p
    proof -
      from that wf'(1) obtain a where "p = Some a"
        by (auto simp: heap_wf_def list_all_iff dest: live_ptrD)
      with that sub show ?thesis by (auto simp: heap_cb_def mem)
    qed
    with sub cbs have "\<forall>p\<in>set (heap_live h'). heap_cb h' p \<noteq> Unset" by auto
    moreover have "0 < capacity h'" using wf' len by (simp add: heap_wf_def)
    ultimately show ?thesis
      using r wf' Tick heap_tick_correct [OF wf ord len, of cur] by (auto simp: heap_good_def)
  qed
qed

lemma heap_run_total:
  "heap_good h \<Longrightarrow> list_all heap_op_plain ops \<Longrightarrow> \<exists>h'. heap_run ops h = Inr h' \<and> heap_good h'"
proof (induction ops arbitrary: h)
  case Nil then show ?case by simp
next
  case (Cons x xs)
  from heap_step_total [OF Cons.prems(1), of x] Cons.prems(2) obtain h1 where
    s: "heap_step x h = Inr h1" and g: "heap_good h1" by auto
  from Cons.IH [OF g] Cons.prems(2) s show ?case by auto
qed

lemma time_heap_new_good:
  assumes "time_heap_new cap = Inr h0"
  shows "heap_wf h0" "heap_ordered h0" "0 < cap \<Longrightarrow> heap_good h0"
proof -
  from assms have h0: "h0 = \<lparr>array = replicate (nat cap) None, capacity = cap, cur_size = 0,
                ht_mem = (\<lambda>_. None), ht_fresh = 0, ht_fired = []\<rparr>" and c: "0 \<le> cap"
    by (auto simp: time_heap_new_def split: if_splits)
  show wf: "heap_wf h0" using c by (simp add: h0 heap_wf_def heap_live_def)
  show ord: "heap_ordered h0" by (simp add: h0 heap_ordered_def heap_keys_def heap_live_def min_heap_def)
  show "heap_good h0" if "0 < cap"
    using wf ord that by (simp add: heap_good_def) (simp add: h0 heap_live_def)
qed

text \<open>
  The heap-order invariant for heaps built with a positive capacity. Start from the empty
  heap that the constructor builds, and let the host run any sequence of schedules, cancels
  and ticks. Whenever the sequence runs to its end, the heap it leaves is well formed and
  has the min-heap property on the expiry times of all occupied positions, cancelled
  records included: every position but the root holds an expiry that is at least its
  parent's. And the sequence does run to its end when the capacity is positive and it
  consists of ticks and of schedules whose callback field was assigned.
\<close>

lemma heap_order_invariant:
  assumes "time_heap_new cap = Inr h0"
  shows "(\<forall>h. heap_run ops h0 = Inr h \<longrightarrow> heap_wf h \<and> heap_ordered h)
       \<and> (0 < cap \<and> list_all heap_op_plain ops \<longrightarrow> (\<exists>h. heap_run ops h0 = Inr h))"
  using time_heap_new_good [OF assms] heap_run_inv [of h0 ops] heap_run_total [of h0 ops]
  by blast


lemmas heap_eval =
  heap_timer_new_def heap_add_timer_def resize_def resize_copy.simps sift_up.simps
  heap_del_timer_def heap_tick_def heap_tick_loop.simps heap_fire_top_def heap_pop_timer_def
  percolate_down_def percolate_loop.simps smaller_child_def heap_empty_def rd_def wr_def
  deref_def upd_def Let_def heap_keys_def heap_live_def key_def

lemmas heap_pred_eval =
  heap_good_def heap_wf_def heap_ordered_def min_heap_def hparent_def live_ptr_def heap_cb_def
  heap_due_def heap_keys_def heap_live_def key_def

lemma heap_order_invariant_example:
  "time_heap_new 2 = Inr heap2
   \<and> (\<exists>h. heap_run [Schedule 5 (Func 1) 0, Schedule 1 (Func 2) 0, Schedule 3 Null 0, Cancel 1,
                     Tick 2, Schedule 4 (Func 3) 0] heap2 = Inr h
          \<and> heap_keys h = [3, 5, 4] \<and> ht_fired h = [] \<and> heap_wf h \<and> heap_ordered h)
   \<and> (\<exists>h. heap_run [Schedule 5 (Func 1) 0, Tick 7, Schedule 1 Null 0] heap2 = Inr h)"
proof -
  have n: "time_heap_new 2 = Inr heap2"
    by (simp add: time_heap_new_def heap2_def eval_nat_numeral)
  have "\<exists>h. heap_run [Schedule 5 (Func 1) 0, Schedule 1 (Func 2) 0, Schedule 3 Null 0, Cancel 1,
                     Tick 2, Schedule 4 (Func 3) 0] heap2 = Inr h
          \<and> heap_keys h = [3, 5, 4] \<and> ht_fired h = []"
    by (simp add: heap2_def heap_eval eval_nat_numeral)
  with heap_order_invariant [OF n, of "[Schedule 5 (Func 1) 0, Schedule 1 (Func 2) 0,
      Schedule 3 Null 0, Cancel 1, Tick 2, Schedule 4 (Func 3) 0]"]
    heap_order_invariant [OF n, of "[Schedule 5 (Func 1) 0, Tick 7, Schedule 1 Null 0]"] n
  show ?thesis by auto
qed

text \<open>
  C5 (fails on the code). The claim: after any sequence of schedules and ticks starting
  from an empty heap the min-heap property holds. The constructor \<^verbatim>\<open>time_heap(int cap)\<close>
  accepts capacity 0 and builds an empty heap on an array of length 0. When the array is
  full \<^verbatim>\<open>add_timer\<close> calls \<^verbatim>\<open>resize\<close> to double the capacity (its comment says so), and
  twice 0 is 0: the array still has no element, and \<^verbatim>\<open>array[hole] = timer\<close> writes
  position 0 outside it. \<^verbatim>\<open>tick\<close> on that heap reads \<^verbatim>\<open>array[0]\<close> outside it as well.
  No heap is left on which the property could hold.
\<close>

theorem heap_capacity_zero_out_of_bounds:
  "time_heap_new 0 = Inr heap0
   \<and> resize heap0 = Inr heap0
   \<and> heap_run [Schedule 5 (Func 1) 0] heap0 = Inl OutOfBounds
   \<and> heap_run [Tick 7] heap0 = Inl OutOfBounds"
  by (simp add: time_heap_new_def heap0_def heap_eval)

text \<open>
  C8. Cancelling a live record changes the callback field of that record to null and
  nothing else: the array, \<open>cur_size\<close>, \<open>capacity\<close>, the record's expiry and argument and
  every other record are as before. When a cancelled record of the heap has expired,
  \<^verbatim>\<open>tick\<close> pops it: no callback of that record is called, the record is destroyed and
  it is no longer in the heap.
\<close>

theorem heap_lazy_cancel:
  "(ht_mem h a = Some t \<longrightarrow>
      heap_del_timer (Some a) h = Inr (h\<lparr>ht_mem := (ht_mem h)(a \<mapsto> t\<lparr>ht_cb_func := Null\<rparr>)\<rparr>))
   \<and> (heap_good h \<and> Some a \<in> set (heap_live h) \<and> heap_cb h (Some a) = Null
        \<and> heap_due cur h (Some a) \<longrightarrow>
        (\<exists>h' es. heap_tick cur h = Inr h' \<and> ht_fired h' = ht_fired h @ es
           \<and> a \<notin> ev_timer ` set es \<and> ht_mem h' a = None \<and> Some a \<notin> set (heap_live h')
           \<and> heap_wf h' \<and> heap_ordered h'))"
proof (intro conjI impI)
  assume "ht_mem h a = Some t"
  then show "heap_del_timer (Some a) h = Inr (h\<lparr>ht_mem := (ht_mem h)(a \<mapsto> t\<lparr>ht_cb_func := Null\<rparr>)\<rparr>)"
    by (rule heap_del_timer_correct)
next
  assume A: "heap_good h \<and> Some a \<in> set (heap_live h) \<and> heap_cb h (Some a) = Null
        \<and> heap_due cur h (Some a)"
  then have wf: "heap_wf h" and ord: "heap_ordered h" and len: "0 < length (array h)"
    and cbs: "\<And>p. p \<in> set (heap_live h) \<Longrightarrow> heap_cb h p \<noteq> Unset"
    by (auto simp: heap_good_def heap_wf_def)
  from heap_tick_loop_correct [OF wf ord len, of cur] cbs obtain h' es where
    r: "heap_tick_loop cur (array h ! 0) h = Inr h'" and wf': "heap_wf h'" "heap_ordered h'"
    and ms: "mset (heap_live h') = filter_mset (\<lambda>p. \<not> heap_due cur h p) (mset (heap_live h))"
    and mem: "ht_mem h' = (\<lambda>a. if Some a \<in> set (heap_live h) \<and> heap_due cur h (Some a) then None
                             else ht_mem h a)"
    and fired: "ht_fired h' = ht_fired h @ es"
    and es: "set es = (\<Union>p \<in> {p \<in> set (heap_live h). heap_due cur h p}. set (heap_event h p))"
    by blast
  have "set (heap_live h') = {p \<in> set (heap_live h). \<not> heap_due cur h p}"
    using ms by (metis mset_eq_setD set_mset_filter set_mset_mset)
  with A have notin: "Some a \<notin> set (heap_live h')" by simp
  have "ev_timer e \<noteq> a" if "e \<in> set es" for e
  proof
    assume ea: "ev_timer e = a"
    from that es obtain p where p: "p \<in> set (heap_live h)" "e \<in> set (heap_event h p)" by auto
    from p(1) wf obtain b where b: "p = Some b"
      by (auto simp: heap_wf_def list_all_iff dest: live_ptrD)
    with p(2) have "ev_timer e = b" by (auto simp: heap_event_def split: callback.splits)
    with ea b p(2) A show False by (simp add: heap_event_def)
  qed
  then have "a \<notin> ev_timer ` set es" by auto
  moreover have "ht_mem h' a = None" using A by (simp add: mem)
  ultimately show "\<exists>h' es. heap_tick cur h = Inr h' \<and> ht_fired h' = ht_fired h @ es
           \<and> a \<notin> ev_timer ` set es \<and> ht_mem h' a = None \<and> Some a \<notin> set (heap_live h')
           \<and> heap_wf h' \<and> heap_ordered h'"
    using r fired notin wf' heap_tick_correct [OF wf ord len, of cur] by auto
qed

theorem heap_lazy_cancel_witness:
  "heap_run [Schedule 5 (Func 1) 9, Schedule 1 (Func 2) 8] heap4 = Inr heap_two
   \<and> heap_del_timer (Some 1) heap_two = Inr heap_two_cancelled
   \<and> array heap_two_cancelled = array heap_two
   \<and> heap_good heap_two_cancelled \<and> heap_cb heap_two_cancelled (Some 1) = Null
   \<and> heap_due 3 heap_two_cancelled (Some 1)
   \<and> (\<exists>h' es. heap_tick 3 heap_two_cancelled = Inr h' \<and> ht_fired h' = ht_fired heap_two_cancelled @ es
           \<and> 1 \<notin> ev_timer ` set es \<and> ht_mem h' 1 = None \<and> Some 1 \<notin> set (heap_live h')
           \<and> heap_wf h' \<and> heap_ordered h')"
proof -
  have r: "heap_run [Schedule 5 (Func 1) 9, Schedule 1 (Func 2) 8] heap4 = Inr heap_two"
    by (simp add: heap4_def heap_two_def heap_eval)
  have g: "heap_good heap_two_cancelled \<and> Some 1 \<in> set (heap_live heap_two_cancelled)
       \<and> heap_cb heap_two_cancelled (Some 1) = Null \<and> heap_due 3 heap_two_cancelled (Some 1)"
    by (simp add: heap_two_cancelled_def heap_two_def heap_pred_eval upt_rec)
  have m: "ht_mem heap_two 1 = Some \<lparr>ht_expire = 1, ht_cb_func = Func 2, ht_user_data = 8\<rparr>"
    by (simp add: heap_two_def)
  show ?thesis
    using heap_lazy_cancel [of heap_two 1 "\<lparr>ht_expire = 1, ht_cb_func = Func 2, ht_user_data = 8\<rparr>"]
      heap_lazy_cancel [of heap_two_cancelled 1 _ 3] r g m
    by (simp add: heap_two_cancelled_def)
qed


section \<open>Properties of the sorted list\<close>

lemma lastp_simps [simp]: "lastp q [] = q" "lastp q (xs @ [x]) = Some x" "lastp q (x # xs) = lastp (Some x) xs"
  by (simp_all add: lastp_def)

lemma dseg_frame:
  "(\<And>a. a \<in> set as \<Longrightarrow> m' a = m a) \<Longrightarrow> dseg nx pv m' q p as r = dseg nx pv m q p as r"
  by (induction as arbitrary: q p) (auto split: option.splits)

lemma dseg_append:
  "dseg nx pv m q p (xs @ ys) r \<longleftrightarrow>
     (\<exists>mid. dseg nx pv m q p xs mid \<and> dseg nx pv m (lastp q xs) mid ys r)"
  by (induction xs arbitrary: q p) (auto split: option.splits)

lemma dseg_Cons:
  "dseg nx pv m q p (a # as) r \<longleftrightarrow>
     (\<exists>t. p = Some a \<and> m a = Some t \<and> pv t = q \<and> dseg nx pv m (Some a) (nx t) as r)"
  by (auto split: option.splits)

declare dseg.simps(2) [simp del]

lemma dseg_snoc:
  "dseg nx pv m q p (xs @ [x]) r \<longleftrightarrow>
     (\<exists>t. dseg nx pv m q p xs (Some x) \<and> m x = Some t \<and> pv t = lastp q xs \<and> nx t = r)"
  by (auto simp: dseg_append dseg_Cons)


lemma dseg_live: "dseg nx pv m q p as r \<Longrightarrow> a \<in> set as \<Longrightarrow> \<exists>t. m a = Some t"
  by (induction as arbitrary: q p) (auto simp: dseg_Cons)

lemma dseg_null_end: "dseg nx pv m q None as r \<Longrightarrow> as = [] \<and> r = None"
  by (cases as) (auto simp: dseg_Cons)


lemma lst_tick_loop_correct:
  fixes E :: "addr \<Rightarrow> int" and F D :: "addr \<Rightarrow> nat"
  shows "dseg ut_next ut_prev (ut_mem l) None tmp as None \<Longrightarrow> head l = tmp \<Longrightarrow> distinct as \<Longrightarrow>
    (\<forall>a\<in>set as. \<exists>t. ut_mem l a = Some t \<and> ut_expire t = E a \<and> ut_user_data t = D a
        \<and> (E a \<le> cur \<longrightarrow> ut_cb_func t = Func (F a))) \<Longrightarrow>
    \<exists>l'. lst_tick_loop cur tmp l = Some (Inr l')
        \<and> dseg ut_next ut_prev (ut_mem l') None (head l') (dropWhile (\<lambda>a. E a \<le> cur) as) None
        \<and> ut_fired l' = ut_fired l @ map (\<lambda>a. Invoke a (F a) (D a)) (takeWhile (\<lambda>a. E a \<le> cur) as)
        \<and> (\<forall>b. b \<notin> set (takeWhile (\<lambda>a. E a \<le> cur) as) \<longrightarrow>
              map_option ut_payload (ut_mem l' b) = map_option ut_payload (ut_mem l b))
        \<and> (\<forall>b\<in>set (takeWhile (\<lambda>a. E a \<le> cur) as). ut_mem l' b = None)
        \<and> tail l' = tail l \<and> ut_fresh l' = ut_fresh l"
proof (induction as arbitrary: l tmp)
  case Nil
  then show ?case by (simp add: lst_tick_loop.simps)
next
  case (Cons a as)
  let ?m = "ut_mem l"
  from Cons.prems(1) obtain t where tmp: "tmp = Some a" and t: "?m a = Some t"
    and pt: "ut_prev t = None" and rest: "dseg ut_next ut_prev ?m (Some a) (ut_next t) as None"
    by (auto simp: dseg_Cons)
  from Cons.prems(4) t have pay: "ut_expire t = E a" "ut_user_data t = D a"
    and cb: "E a \<le> cur \<Longrightarrow> ut_cb_func t = Func (F a)" by auto
  from Cons.prems(3) have a_as: "a \<notin> set as" and das: "distinct as" by auto
  show ?case
  proof (cases "E a \<le> cur")
    case False
    then have "lst_tick_loop cur tmp l = Some (Inr l)"
      using tmp t pay by (subst lst_tick_loop.simps) simp
    with False Cons.prems(1,2) show ?thesis by simp
  next
    case True
    note cbf = cb [OF True]
    define l1 where "l1 = l\<lparr>ut_fired := ut_fired l @ [Invoke a (F a) (D a)], head := ut_next t\<rparr>"
    show ?thesis
    proof (cases "ut_next t")
      case None
      with rest have as: "as = []" by (auto dest: dseg_null_end)
      define l2 where "l2 = l1\<lparr>ut_mem := (ut_mem l1)(a := None)\<rparr>"
      have "lst_tick_loop cur tmp l = lst_tick_loop cur None l2"
        using tmp t pay cbf True None
        by (subst lst_tick_loop.simps) (simp add: Let_def l1_def l2_def)
      then have "lst_tick_loop cur tmp l = Some (Inr l2)"
        by (simp add: lst_tick_loop.simps)
      then show ?thesis using True as None
        by (simp add: l2_def l1_def)
    next
      case (Some ha)
      with rest obtain as' th where as: "as = ha # as'" and th: "?m ha = Some th"
        and pth: "ut_prev th = Some a" and rest': "dseg ut_next ut_prev ?m (Some ha) (ut_next th) as' None"
        by (cases as) (auto simp: dseg_Cons)
      from a_as as have ha: "ha \<noteq> a" by auto
      define m2 where "m2 = (?m(ha \<mapsto> th\<lparr>ut_prev := None\<rparr>))(a := None)"
      define l2 where "l2 = l1\<lparr>ut_mem := m2\<rparr>"
      have step: "lst_tick_loop cur tmp l = lst_tick_loop cur (Some ha) l2"
        using tmp t pay cbf True Some th
        by (subst lst_tick_loop.simps) (simp add: Let_def l1_def l2_def m2_def upd_def)
      have l2: "ut_mem l2 = m2" "head l2 = Some ha" "tail l2 = tail l" "ut_fresh l2 = ut_fresh l"
        "ut_fired l2 = ut_fired l @ [Invoke a (F a) (D a)]"
        by (simp_all add: l2_def l1_def Some)
      have fr: "dseg ut_next ut_prev m2 (Some ha) (ut_next th) as' None"
        using rest' a_as das as by (subst dseg_frame [where m = ?m]) (auto simp: m2_def)
      have d2: "dseg ut_next ut_prev (ut_mem l2) None (Some ha) as None"
        unfolding as l2 using fr ha by (simp add: dseg_Cons m2_def)
      have p2: "\<forall>b\<in>set as. \<exists>t. ut_mem l2 b = Some t \<and> ut_expire t = E b \<and> ut_user_data t = D b
          \<and> (E b \<le> cur \<longrightarrow> ut_cb_func t = Func (F b))"
      proof
        fix b assume b: "b \<in> set as"
        with a_as have ba: "b \<noteq> a" by auto
        from Cons.prems(4) b obtain tb where tb: "?m b = Some tb" "ut_expire tb = E b"
          "ut_user_data tb = D b" "E b \<le> cur \<longrightarrow> ut_cb_func tb = Func (F b)" by auto
        show "\<exists>t. ut_mem l2 b = Some t \<and> ut_expire t = E b \<and> ut_user_data t = D b
          \<and> (E b \<le> cur \<longrightarrow> ut_cb_func t = Func (F b))"
          using tb ba th by (cases "b = ha") (auto simp: l2 m2_def)
      qed
      from Cons.IH [OF d2 l2(2) das p2] obtain l' where
        r: "lst_tick_loop cur (Some ha) l2 = Some (Inr l')"
        and d': "dseg ut_next ut_prev (ut_mem l') None (head l') (dropWhile (\<lambda>a. E a \<le> cur) as) None"
        and f': "ut_fired l' = ut_fired l2 @ map (\<lambda>a. Invoke a (F a) (D a)) (takeWhile (\<lambda>a. E a \<le> cur) as)"
        and pay': "\<And>b. b \<notin> set (takeWhile (\<lambda>a. E a \<le> cur) as) \<Longrightarrow>
              map_option ut_payload (ut_mem l' b) = map_option ut_payload (ut_mem l2 b)"
        and gone': "\<And>b. b \<in> set (takeWhile (\<lambda>a. E a \<le> cur) as) \<Longrightarrow> ut_mem l' b = None"
        and tl': "tail l' = tail l2" "ut_fresh l' = ut_fresh l2"
        by blast
      have a_tw: "a \<notin> set (takeWhile (\<lambda>a. E a \<le> cur) as)"
        using a_as by (auto dest: set_takeWhileD)
      have pm2: "map_option ut_payload (m2 b) = map_option ut_payload (?m b)" if "b \<noteq> a" for b
        using that th by (auto simp: m2_def ut_payload_def)
      have "ut_mem l' a = None" using pay' [OF a_tw] by (simp add: l2 m2_def)
      with r step True d' f' pay' gone' tl' l2 pm2 show ?thesis
        by (intro exI [of _ l']) auto
    qed
  qed
qed


lemma dseg_head: "dseg nx pv m q p (a # as) r \<Longrightarrow> p = Some a"
  by (simp add: dseg_Cons)

lemma lst_del_timer_correct:
  assumes lis: "lst_is l as" and mem: "a \<in> set as"
  shows "\<exists>l'. lst_del_timer (Some a) l = Inr l' \<and> lst_is l' (remove1 a as) \<and> ut_mem l' a = None
           \<and> (\<forall>b. b \<noteq> a \<longrightarrow> map_option ut_payload (ut_mem l' b) = map_option ut_payload (ut_mem l b))
           \<and> ut_fired l' = ut_fired l \<and> ut_fresh l' = ut_fresh l"
proof -
  let ?m = "ut_mem l"
  from mem obtain pre post where as: "as = pre @ a # post" by (auto dest: split_list)
  from lis as have dist: "distinct (pre @ a # post)" and a_pre: "a \<notin> set pre" and a_post: "a \<notin> set post"
    and tl: "tail l = Some (last (a # post))"
    and seg: "dseg ut_next ut_prev ?m None (head l) (pre @ a # post) None"
    by (auto simp: lst_is_def)
  have rm: "remove1 a as = pre @ post" using as a_pre by (simp add: remove1_append)
  from seg obtain t where pre_seg: "dseg ut_next ut_prev ?m None (head l) pre (Some a)"
    and t: "?m a = Some t" and pt: "ut_prev t = lastp None pre"
    and post_seg: "dseg ut_next ut_prev ?m (Some a) (ut_next t) post None"
    by (auto simp: dseg_append dseg_Cons)
  show ?thesis
  proof (cases pre rule: rev_cases)
    case Nil
    with pre_seg have hd: "head l = Some a" by simp
    show ?thesis
    proof (cases post)
      case pNil: Nil
      with post_seg have nt: "ut_next t = None" by simp
      let ?l' = "l\<lparr>ut_mem := ?m(a := None), head := None, tail := None\<rparr>"
      have "lst_del_timer (Some a) l = Inr ?l'"
        using hd tl pNil t by (simp add: lst_del_timer_def free_def)
      moreover have "lst_is ?l' (remove1 a as)" using rm Nil pNil by (simp add: lst_is_def)
      ultimately show ?thesis by (intro exI [of _ ?l']) simp
    next
      case (Cons n post')
      with post_seg obtain tn where nt: "ut_next t = Some n" and tn: "?m n = Some tn"
        and ptn: "ut_prev tn = Some a"
        and seg': "dseg ut_next ut_prev ?m (Some n) (ut_next tn) post' None"
        by (auto simp: dseg_Cons)
      have tlp: "tail l = Some (last post)" using tl Cons by simp
      have "last post \<in> set post" using Cons by (intro last_in_set) simp
      with a_post have "last post \<noteq> a" by metis
      with tlp have tlne: "tail l \<noteq> Some a" by simp
      from dist Cons have ne: "n \<noteq> a" "n \<notin> set post'" "a \<notin> set post'"
        by auto
      let ?m' = "(?m(n \<mapsto> tn\<lparr>ut_prev := None\<rparr>))(a := None)"
      let ?l' = "l\<lparr>head := Some n, ut_mem := ?m'\<rparr>"
      have "lst_del_timer (Some a) l = Inr ?l'"
        using hd tlne t nt tn ne
        by (simp add: lst_del_timer_def free_def deref_def upd_def)
      moreover have "dseg ut_next ut_prev ?m' (Some n) (ut_next tn) post' None"
        using seg' ne by (subst dseg_frame [where m = ?m]) auto
      then have "lst_is ?l' (remove1 a as)"
        using rm Nil Cons ne dist tlp by (simp add: lst_is_def dseg_Cons)
      moreover have "\<forall>b. b \<noteq> a \<longrightarrow> map_option ut_payload (?m' b) = map_option ut_payload (?m b)"
        using tn by (auto simp: ut_payload_def)
      ultimately show ?thesis by (intro exI [of _ ?l']) simp
    qed
  next
    case (snoc pre' p)
    with pre_seg obtain tp where pre'_seg: "dseg ut_next ut_prev ?m None (head l) pre' (Some p)"
      and tp: "?m p = Some tp" and ptp: "ut_prev tp = lastp None pre'" and ntp: "ut_next tp = Some a"
      by (auto simp: dseg_snoc)
    from pt snoc have pt': "ut_prev t = Some p" by simp
    from dist snoc have pne: "p \<noteq> a" "p \<notin> set pre'" "a \<notin> set pre'" "p \<notin> set post"
      by auto
    have hdne: "head l \<noteq> Some a"
    proof (cases pre')
      case Nil with pre'_seg pne show ?thesis by simp
    next
      case (Cons x xs)
      with pre'_seg have "head l = Some x" by (simp add: dseg_Cons)
      with Cons pne show ?thesis by auto
    qed
    show ?thesis
    proof (cases post)
      case pNil: Nil
      with post_seg have nt: "ut_next t = None" by simp
      from tl pNil have tla: "tail l = Some a" by simp
      let ?m' = "(?m(p \<mapsto> tp\<lparr>ut_next := None\<rparr>))(a := None)"
      let ?l' = "l\<lparr>tail := Some p, ut_mem := ?m'\<rparr>"
      have "lst_del_timer (Some a) l = Inr ?l'"
        using hdne tla t pt' tp pne
        by (simp add: lst_del_timer_def free_def deref_def upd_def)
      moreover have "dseg ut_next ut_prev ?m' None (head l) pre' (Some p)"
        using pre'_seg pne by (subst dseg_frame [where m = ?m]) auto
      then have "lst_is ?l' (remove1 a as)"
        using rm snoc pNil pne dist ptp by (simp add: lst_is_def dseg_snoc)
      moreover have "\<forall>b. b \<noteq> a \<longrightarrow> map_option ut_payload (?m' b) = map_option ut_payload (?m b)"
        using tp by (auto simp: ut_payload_def)
      ultimately show ?thesis by (intro exI [of _ ?l']) simp
    next
      case (Cons n post')
      with post_seg obtain tn where nt: "ut_next t = Some n" and tn: "?m n = Some tn"
        and ptn: "ut_prev tn = Some a"
        and seg': "dseg ut_next ut_prev ?m (Some n) (ut_next tn) post' None"
        by (auto simp: dseg_Cons)
      have tlp: "tail l = Some (last post)" using tl Cons by simp
      have "last post \<in> set post" using Cons by (intro last_in_set) simp
      with a_post have "last post \<noteq> a" by metis
      with tlp have tlne: "tail l \<noteq> Some a" by simp
      from dist Cons snoc have ne: "n \<noteq> a" "n \<notin> set post'" "a \<notin> set post'"
        "n \<noteq> p" "n \<notin> set pre'" "p \<notin> set post'"
        by auto
      let ?m' = "(?m(p \<mapsto> tp\<lparr>ut_next := Some n\<rparr>, n \<mapsto> tn\<lparr>ut_prev := Some p\<rparr>))(a := None)"
      let ?l' = "l\<lparr>ut_mem := ?m'\<rparr>"
      have "lst_del_timer (Some a) l = Inr ?l'"
        using hdne tlne t pt' nt tp tn pne ne
        by (simp add: lst_del_timer_def free_def deref_def upd_def)
      moreover have "dseg ut_next ut_prev ?m' None (head l) pre' (Some p)"
        using pre'_seg pne ne by (subst dseg_frame [where m = ?m]) auto
      moreover have "dseg ut_next ut_prev ?m' (Some n) (ut_next tn) post' None"
        using seg' ne pne by (subst dseg_frame [where m = ?m]) auto
      ultimately have "lst_is ?l' (remove1 a as)"
        using rm snoc Cons pne ne dist ptp tlp
        by (simp add: lst_is_def dseg_snoc dseg_append dseg_Cons)
      moreover have "\<forall>b. b \<noteq> a \<longrightarrow> map_option ut_payload (?m' b) = map_option ut_payload (?m b)"
        using tp tn by (auto simp: ut_payload_def)
      ultimately show ?thesis
        using \<open>lst_del_timer (Some a) l = Inr ?l'\<close> by (intro exI [of _ ?l']) simp
    qed
  qed
qed







lemma last_dropWhile: "dropWhile P xs \<noteq> [] \<Longrightarrow> last (dropWhile P xs) = last xs"
  by (induction xs) (auto split: if_splits)

lemma lst_keys_expire: "lst_keys l as = map (lst_expire l) as"
  by (simp add: lst_keys_def lst_expire_def)

lemma lst_is_live: "lst_is l as \<Longrightarrow> a \<in> set as \<Longrightarrow> \<exists>t. ut_mem l a = Some t"
  unfolding lst_is_def by (blast dest: dseg_live)

lemma payload_expire:
  assumes "map_option ut_payload (ut_mem l' b) = map_option ut_payload (ut_mem l b)"
  shows "lst_expire l' b = lst_expire l b" "lst_cb l' b = lst_cb l b" "lst_event l' b = lst_event l b"
proof -
  show e: "lst_expire l' b = lst_expire l b" and c: "lst_cb l' b = lst_cb l b"
    using assms
    by (cases "ut_mem l b"; cases "ut_mem l' b"; simp add: lst_expire_def lst_cb_def ut_payload_def)+
  show "lst_event l' b = lst_event l b"
    using assms c
    by (cases "ut_mem l b"; cases "ut_mem l' b")
       (auto simp: lst_event_def ut_payload_def split: callback.splits)
qed

lemma lst_tick_correct:
  assumes lis: "lst_is l as"
    and cbs: "\<forall>a\<in>set as. lst_due cur l a \<longrightarrow> (\<exists>f. lst_cb l a = Func f)"
  shows "\<exists>l'. lst_tick cur l = Some (Inr l') \<and> lst_is l' (dropWhile (lst_due cur l) as)
       \<and> ut_fired l' = ut_fired l @ concat (map (lst_event l) (takeWhile (lst_due cur l) as))
       \<and> (\<forall>b. b \<notin> set (takeWhile (lst_due cur l) as) \<longrightarrow>
             map_option ut_payload (ut_mem l' b) = map_option ut_payload (ut_mem l b))
       \<and> (\<forall>b\<in>set (takeWhile (lst_due cur l) as). ut_mem l' b = None)
       \<and> ut_fresh l' = ut_fresh l"
proof -
  define F where "F a = (case lst_cb l a of Func f \<Rightarrow> f | _ \<Rightarrow> 0)" for a
  define D where "D a = ut_user_data (the (ut_mem l a))" for a
  let ?due = "\<lambda>a. lst_expire l a \<le> cur"
  have due: "lst_due cur l = ?due" by (simp add: fun_eq_iff lst_due_def)
  from lis have seg: "dseg ut_next ut_prev (ut_mem l) None (head l) as None" and dist: "distinct as"
    and tl: "as = [] \<or> tail l = Some (last as)"
    by (auto simp: lst_is_def)
  have pre: "\<forall>a\<in>set as. \<exists>t. ut_mem l a = Some t \<and> ut_expire t = lst_expire l a \<and> ut_user_data t = D a
        \<and> (lst_expire l a \<le> cur \<longrightarrow> ut_cb_func t = Func (F a))"
  proof
    fix a assume a: "a \<in> set as"
    then obtain t where t: "ut_mem l a = Some t" using lst_is_live [OF lis] by blast
    with cbs a show "\<exists>t. ut_mem l a = Some t \<and> ut_expire t = lst_expire l a \<and> ut_user_data t = D a
        \<and> (lst_expire l a \<le> cur \<longrightarrow> ut_cb_func t = Func (F a))"
      by (auto simp: lst_expire_def D_def F_def lst_cb_def lst_due_def)
  qed
  from lst_tick_loop_correct [OF seg refl dist pre] obtain l' where
    r: "lst_tick_loop cur (head l) l = Some (Inr l')"
    and d': "dseg ut_next ut_prev (ut_mem l') None (head l') (dropWhile ?due as) None"
    and f': "ut_fired l' = ut_fired l @ map (\<lambda>a. Invoke a (F a) (D a)) (takeWhile ?due as)"
    and rest: "\<forall>b. b \<notin> set (takeWhile ?due as) \<longrightarrow>
              map_option ut_payload (ut_mem l' b) = map_option ut_payload (ut_mem l b)"
      "\<forall>b\<in>set (takeWhile ?due as). ut_mem l' b = None" "tail l' = tail l" "ut_fresh l' = ut_fresh l"
    by blast
  have res: "lst_tick cur l = Some (Inr l')"
  proof (cases "head l")
    case None
    with r show ?thesis by (simp add: lst_tick_def lst_tick_loop.simps)
  next
    case (Some a) with r show ?thesis by (simp add: lst_tick_def)
  qed
  have "map (\<lambda>a. Invoke a (F a) (D a)) (takeWhile ?due as) = concat (map (lst_event l) (takeWhile ?due as))"
  proof -
    have "lst_event l a = [Invoke a (F a) (D a)]" if "a \<in> set (takeWhile ?due as)" for a
    proof -
      from that have "a \<in> set as" "?due a" by (auto dest: set_takeWhileD)
      with cbs obtain f where "lst_cb l a = Func f" by (auto simp: lst_due_def)
      then show ?thesis by (simp add: lst_event_def F_def D_def)
    qed
    then have "map (lst_event l) (takeWhile ?due as) = map (\<lambda>a. [Invoke a (F a) (D a)]) (takeWhile ?due as)"
      by simp
    then show ?thesis by (simp add: concat_map_singleton del: map_eq_conv)
  qed
  with f' have fired: "ut_fired l' = ut_fired l @ concat (map (lst_event l) (takeWhile ?due as))"
    by simp
  have "dropWhile ?due as = [] \<or> tail l' = Some (last (dropWhile ?due as))"
    using tl rest(3) by (cases "dropWhile ?due as = []") (auto simp: last_dropWhile)
  with d' dist have "lst_is l' (dropWhile ?due as)" by (simp add: lst_is_def)
  with res fired rest show ?thesis unfolding due by blast
qed




lemma sorted_dropWhile_filter:
  fixes E :: "addr \<Rightarrow> int"
  shows "sorted (map E as) \<Longrightarrow>
    dropWhile (\<lambda>a. E a \<le> c) as = filter (\<lambda>a. \<not> E a \<le> c) as
    \<and> takeWhile (\<lambda>a. E a \<le> c) as = filter (\<lambda>a. E a \<le> c) as"
proof (induction as)
  case Nil then show ?case by simp
next
  case (Cons b as)
  show ?case
  proof (cases "E b \<le> c")
    case True with Cons show ?thesis by simp
  next
    case False
    with Cons.prems have "\<forall>x\<in>set as. \<not> E x \<le> c" by auto
    then have "filter (\<lambda>a. \<not> E a \<le> c) as = as" "filter (\<lambda>a. E a \<le> c) as = []"
      by (simp_all add: filter_empty_conv)
    with False show ?thesis by simp
  qed
qed

lemma dseg_links:
  "(\<And>b. b \<in> set as \<Longrightarrow> map_option (\<lambda>t. (nx t, pv t)) (m' b) = map_option (\<lambda>t. (nx t, pv t)) (m b))
     \<Longrightarrow> dseg nx pv m' q p as r = dseg nx pv m q p as r"
proof (induction as arbitrary: q p)
  case Nil then show ?case by simp
next
  case (Cons a as)
  from Cons.prems [of a] have "map_option (\<lambda>t. (nx t, pv t)) (m' a) = map_option (\<lambda>t. (nx t, pv t)) (m a)"
    by simp
  moreover have "dseg nx pv m' q' p' as r = dseg nx pv m q' p' as r" for q' p'
    by (rule Cons.IH) (simp add: Cons.prems)
  ultimately show ?case
    by (cases "m a"; cases "m' a") (auto simp: dseg_Cons)
qed






section \<open>The slots of the time wheel\<close>

lemma dseg_nonempty_head:
  "dseg nx pv m q p K tmp \<Longrightarrow> K \<noteq> [] \<Longrightarrow> p = Some (hd K)"
  by (cases K) (auto simp: dseg_Cons)

lemma wheel_tick_loop_correct:
  fixes Rot :: "addr \<Rightarrow> int" and F D :: "addr \<Rightarrow> nat"
  shows "dseg tw_next tw_prev (tw_mem w) None (slots w ! c) K tmp \<Longrightarrow>
     dseg tw_next tw_prev (tw_mem w) (lastp None K) tmp R None \<Longrightarrow>
     distinct (K @ R) \<Longrightarrow> cur_slot w = int c \<Longrightarrow> c < length (slots w) \<Longrightarrow>
     (\<forall>a\<in>set R. \<exists>t. tw_mem w a = Some t \<and> rotation t = Rot a \<and> tw_user_data t = D a
         \<and> (\<not> 0 < Rot a \<longrightarrow> tw_cb_func t = Func (F a))) \<Longrightarrow>
     \<exists>w'. wheel_tick_loop tmp w = Some (Inr w')
        \<and> dseg tw_next tw_prev (tw_mem w') None (slots w' ! c) (K @ filter (\<lambda>a. 0 < Rot a) R) None
        \<and> tw_fired w' = tw_fired w @ map (\<lambda>a. Invoke a (F a) (D a)) (filter (\<lambda>a. \<not> 0 < Rot a) R)
        \<and> (\<forall>i. i \<noteq> c \<longrightarrow> slots w' ! i = slots w ! i) \<and> length (slots w') = length (slots w)
        \<and> cur_slot w' = cur_slot w \<and> tw_fresh w' = tw_fresh w
        \<and> (\<forall>b. b \<notin> set (K @ R) \<longrightarrow> tw_mem w' b = tw_mem w b)
        \<and> (\<forall>b\<in>set K. map_option tw_payload (tw_mem w' b) = map_option tw_payload (tw_mem w b))
        \<and> (\<forall>b\<in>set R. 0 < Rot b \<longrightarrow> map_option tw_payload (tw_mem w' b)
               = map_option (\<lambda>t. tw_payload (t\<lparr>rotation := rotation t - 1\<rparr>)) (tw_mem w b))
        \<and> (\<forall>b\<in>set R. \<not> 0 < Rot b \<longrightarrow> tw_mem w' b = None)"
proof (induction R arbitrary: K tmp w)
  case Nil
  then have "tmp = None" by simp
  then have "wheel_tick_loop tmp w = Some (Inr w)" by (simp add: wheel_tick_loop.simps)
  with Nil show ?case by (intro exI [of _ w]) simp
next
  case (Cons a R)
  let ?m = "tw_mem w"
  from Cons.prems(2) obtain t where tmp: "tmp = Some a" and t: "?m a = Some t"
    and pt: "tw_prev t = lastp None K"
    and rest: "dseg tw_next tw_prev ?m (Some a) (tw_next t) R None"
    by (auto simp: dseg_Cons)
  from Cons.prems(6) t have rot: "rotation t = Rot a" and dat: "tw_user_data t = D a"
    and cb: "\<not> 0 < Rot a \<Longrightarrow> tw_cb_func t = Func (F a)" by auto
  from Cons.prems(3) have ne: "a \<notin> set K" "a \<notin> set R" "distinct K" "distinct R"
    "set K \<inter> set R = {}" by auto
  show ?case
  proof (cases "0 < Rot a")
    case True
    let ?m1 = "?m(a \<mapsto> t\<lparr>rotation := rotation t - 1\<rparr>)"
    let ?w1 = "w\<lparr>tw_mem := ?m1\<rparr>"
    have step: "wheel_tick_loop tmp w = wheel_tick_loop (tw_next t) ?w1"
      using tmp t rot True by (subst wheel_tick_loop.simps) simp
    have links: "map_option (\<lambda>t. (tw_next t, tw_prev t)) (?m1 b) = map_option (\<lambda>t. (tw_next t, tw_prev t)) (?m b)" for b
      using t by simp
    have "\<exists>w'. wheel_tick_loop (tw_next t) ?w1 = Some (Inr w')
        \<and> dseg tw_next tw_prev (tw_mem w') None (slots w' ! c) ((K @ [a]) @ filter (\<lambda>a. 0 < Rot a) R) None
        \<and> tw_fired w' = tw_fired ?w1 @ map (\<lambda>a. Invoke a (F a) (D a)) (filter (\<lambda>a. \<not> 0 < Rot a) R)
        \<and> (\<forall>i. i \<noteq> c \<longrightarrow> slots w' ! i = slots ?w1 ! i) \<and> length (slots w') = length (slots ?w1)
        \<and> cur_slot w' = cur_slot ?w1 \<and> tw_fresh w' = tw_fresh ?w1
        \<and> (\<forall>b. b \<notin> set ((K @ [a]) @ R) \<longrightarrow> tw_mem w' b = tw_mem ?w1 b)
        \<and> (\<forall>b\<in>set (K @ [a]). map_option tw_payload (tw_mem w' b) = map_option tw_payload (tw_mem ?w1 b))
        \<and> (\<forall>b\<in>set R. 0 < Rot b \<longrightarrow> map_option tw_payload (tw_mem w' b)
               = map_option (\<lambda>t. tw_payload (t\<lparr>rotation := rotation t - 1\<rparr>)) (tw_mem ?w1 b))
        \<and> (\<forall>b\<in>set R. \<not> 0 < Rot b \<longrightarrow> tw_mem w' b = None)"
    proof (rule Cons.IH)
      have "dseg tw_next tw_prev ?m None (slots w ! c) (K @ [a]) (tw_next t)"
        using Cons.prems(1) tmp t pt by (simp add: dseg_snoc)
      then show "dseg tw_next tw_prev (tw_mem ?w1) None (slots ?w1 ! c) (K @ [a]) (tw_next t)"
        using dseg_links [of "K @ [a]" tw_next tw_prev ?m1 ?m, OF links] by simp
      show "dseg tw_next tw_prev (tw_mem ?w1) (lastp None (K @ [a])) (tw_next t) R None"
        using rest dseg_links [of R tw_next tw_prev ?m1 ?m, OF links] by simp
      show "distinct ((K @ [a]) @ R)" using Cons.prems(3) by simp
      show "cur_slot ?w1 = int c" using Cons.prems(4) by simp
      show "c < length (slots ?w1)" using Cons.prems(5) by simp
      show "\<forall>a\<in>set R. \<exists>t. tw_mem ?w1 a = Some t \<and> rotation t = Rot a \<and> tw_user_data t = D a
         \<and> (\<not> 0 < Rot a \<longrightarrow> tw_cb_func t = Func (F a))"
        using Cons.prems(6) ne by auto
    qed
    then obtain w' where r: "wheel_tick_loop (tw_next t) ?w1 = Some (Inr w')"
      and d: "dseg tw_next tw_prev (tw_mem w') None (slots w' ! c) ((K @ [a]) @ filter (\<lambda>a. 0 < Rot a) R) None"
      and f: "tw_fired w' = tw_fired w @ map (\<lambda>a. Invoke a (F a) (D a)) (filter (\<lambda>a. \<not> 0 < Rot a) R)"
      and sl: "\<forall>i. i \<noteq> c \<longrightarrow> slots w' ! i = slots w ! i" "length (slots w') = length (slots w)"
        "cur_slot w' = cur_slot w" "tw_fresh w' = tw_fresh w"
      and out: "\<forall>b. b \<notin> set ((K @ [a]) @ R) \<longrightarrow> tw_mem w' b = ?m1 b"
      and kept: "\<forall>b\<in>set (K @ [a]). map_option tw_payload (tw_mem w' b) = map_option tw_payload (?m1 b)"
      and dec: "\<forall>b\<in>set R. 0 < Rot b \<longrightarrow> map_option tw_payload (tw_mem w' b)
               = map_option (\<lambda>t. tw_payload (t\<lparr>rotation := rotation t - 1\<rparr>)) (?m1 b)"
      and gone: "\<forall>b\<in>set R. \<not> 0 < Rot b \<longrightarrow> tw_mem w' b = None"
      by auto
    have c1: "\<forall>b. b \<notin> set (K @ a # R) \<longrightarrow> tw_mem w' b = ?m b" using out by auto
    have c2: "\<forall>b\<in>set K. map_option tw_payload (tw_mem w' b) = map_option tw_payload (?m b)"
      using kept ne by auto
    have c3: "\<forall>b\<in>set (a # R). 0 < Rot b \<longrightarrow> map_option tw_payload (tw_mem w' b)
               = map_option (\<lambda>t. tw_payload (t\<lparr>rotation := rotation t - 1\<rparr>)) (?m b)"
      using dec kept ne t by auto
    have c4: "\<forall>b\<in>set (a # R). \<not> 0 < Rot b \<longrightarrow> tw_mem w' b = None"
      using gone True by auto
    show ?thesis
      using step r d f sl c1 c2 c3 c4 True by (intro exI [of _ w']) simp
  next
    case False
    note cbf = cb [OF False]
    define w1 where "w1 = w\<lparr>tw_fired := tw_fired w @ [Invoke a (F a) (D a)]\<rparr>"
    have rdc: "rd (slots w1) (cur_slot w1) = Inr (slots w ! c)"
      using Cons.prems(4,5) by (simp add: w1_def rd_def)
    show ?thesis
    proof (cases K rule: rev_cases)
      case Nil
      with Cons.prems(1) tmp have hd: "slots w ! c = Some a" by simp
      from pt Nil have pt': "tw_prev t = None" by simp
      define m3 where "m3 = (case tw_next t of None \<Rightarrow> ?m(a := None)
           | Some n \<Rightarrow> (?m(a := None))(n \<mapsto> (the (?m n))\<lparr>tw_prev := None\<rparr>))"
      define w3 where "w3 = w1\<lparr>slots := (slots w)[c := tw_next t], tw_mem := m3\<rparr>"
      have nlive: "\<exists>tn. ?m n = Some tn \<and> n \<noteq> a \<and> n \<in> set R" if "tw_next t = Some n" for n
        using rest that ne by (cases R) (auto simp: dseg_Cons)
      have step: "wheel_tick_loop tmp w = wheel_tick_loop (tw_next t) w3"
      proof (cases "tw_next t")
        case None
        then show ?thesis
          using tmp t rot False cbf dat rdc hd Cons.prems(4)
          by (subst wheel_tick_loop.simps)
             (simp add: Let_def w1_def [symmetric] w3_def m3_def, simp add: w1_def)
      next
        case (Some n)
        with nlive obtain tn where "?m n = Some tn" "n \<noteq> a" by blast
        then show ?thesis
          using Some tmp t rot False cbf dat rdc hd Cons.prems(4)
          by (subst wheel_tick_loop.simps)
             (simp add: Let_def w1_def [symmetric] w3_def m3_def upd_def, simp add: w1_def)
      qed
      have w3: "tw_mem w3 = m3" "slots w3 ! c = tw_next t" "cur_slot w3 = int c"
        "length (slots w3) = length (slots w)" "tw_fresh w3 = tw_fresh w"
        "tw_fired w3 = tw_fired w @ [Invoke a (F a) (D a)]"
        "\<And>i. i \<noteq> c \<Longrightarrow> slots w3 ! i = slots w ! i"
        using Cons.prems(4,5) by (simp_all add: w3_def w1_def)
      have m3_out: "m3 b = ?m b" if "b \<noteq> a" "Some b \<noteq> tw_next t" for b
        using that by (auto simp: m3_def split: option.splits)
      have m3_a: "m3 a = None"
        using nlive by (auto simp: m3_def split: option.splits)
      have m3_pay: "map_option tw_payload (m3 b) = map_option tw_payload (?m b)" if "b \<noteq> a" for b
        using that nlive by (auto simp: m3_def tw_payload_def split: option.splits)
      have seg3: "dseg tw_next tw_prev m3 None (tw_next t) R None"
      proof (cases R)
        case Nil with rest show ?thesis by simp
      next
        case (Cons n R')
        with rest obtain tn where nt: "tw_next t = Some n" and tn: "?m n = Some tn"
          and r': "dseg tw_next tw_prev ?m (Some n) (tw_next tn) R' None"
          by (auto simp: dseg_Cons)
        from ne Cons have nn: "n \<noteq> a" "n \<notin> set R'" "a \<notin> set R'" by auto
        have "dseg tw_next tw_prev m3 (Some n) (tw_next tn) R' None"
          using r' nn nt by (subst dseg_frame [where m = ?m]) (auto simp: m3_def)
        then show ?thesis using Cons nt tn nn by (simp add: dseg_Cons m3_def)
      qed
      have "\<exists>w'. wheel_tick_loop (tw_next t) w3 = Some (Inr w')
        \<and> dseg tw_next tw_prev (tw_mem w') None (slots w' ! c) ([] @ filter (\<lambda>a. 0 < Rot a) R) None
        \<and> tw_fired w' = tw_fired w3 @ map (\<lambda>a. Invoke a (F a) (D a)) (filter (\<lambda>a. \<not> 0 < Rot a) R)
        \<and> (\<forall>i. i \<noteq> c \<longrightarrow> slots w' ! i = slots w3 ! i) \<and> length (slots w') = length (slots w3)
        \<and> cur_slot w' = cur_slot w3 \<and> tw_fresh w' = tw_fresh w3
        \<and> (\<forall>b. b \<notin> set ([] @ R) \<longrightarrow> tw_mem w' b = tw_mem w3 b)
        \<and> (\<forall>b\<in>set []. map_option tw_payload (tw_mem w' b) = map_option tw_payload (tw_mem w3 b))
        \<and> (\<forall>b\<in>set R. 0 < Rot b \<longrightarrow> map_option tw_payload (tw_mem w' b)
               = map_option (\<lambda>t. tw_payload (t\<lparr>rotation := rotation t - 1\<rparr>)) (tw_mem w3 b))
        \<and> (\<forall>b\<in>set R. \<not> 0 < Rot b \<longrightarrow> tw_mem w' b = None)"
      proof (rule Cons.IH)
        show "dseg tw_next tw_prev (tw_mem w3) None (slots w3 ! c) [] (tw_next t)"
          by (simp add: w3)
        show "dseg tw_next tw_prev (tw_mem w3) (lastp None []) (tw_next t) R None"
          using seg3 by (simp add: w3)
        show "distinct ([] @ R)" using ne by simp
        show "cur_slot w3 = int c" by (simp add: w3)
        show "c < length (slots w3)" using Cons.prems(5) by (simp add: w3)
        show "\<forall>a\<in>set R. \<exists>t. tw_mem w3 a = Some t \<and> rotation t = Rot a \<and> tw_user_data t = D a
         \<and> (\<not> 0 < Rot a \<longrightarrow> tw_cb_func t = Func (F a))"
        proof
          fix b assume b: "b \<in> set R"
          with Cons.prems(6) obtain tb where tb: "?m b = Some tb" "rotation tb = Rot b"
            "tw_user_data tb = D b" "\<not> 0 < Rot b \<longrightarrow> tw_cb_func tb = Func (F b)" by auto
          from b ne have "b \<noteq> a" by auto
          with tb show "\<exists>t. tw_mem w3 b = Some t \<and> rotation t = Rot b \<and> tw_user_data t = D b
              \<and> (\<not> 0 < Rot b \<longrightarrow> tw_cb_func t = Func (F b))"
            by (auto simp: w3 m3_def split: option.splits)
        qed
      qed
      then obtain w' where r: "wheel_tick_loop (tw_next t) w3 = Some (Inr w')"
        and d: "dseg tw_next tw_prev (tw_mem w') None (slots w' ! c) (filter (\<lambda>a. 0 < Rot a) R) None"
        and f: "tw_fired w' = tw_fired w3 @ map (\<lambda>a. Invoke a (F a) (D a)) (filter (\<lambda>a. \<not> 0 < Rot a) R)"
        and sl: "\<forall>i. i \<noteq> c \<longrightarrow> slots w' ! i = slots w3 ! i" "length (slots w') = length (slots w3)"
          "cur_slot w' = cur_slot w3" "tw_fresh w' = tw_fresh w3"
        and out: "\<forall>b. b \<notin> set R \<longrightarrow> tw_mem w' b = m3 b"
        and dec: "\<forall>b\<in>set R. 0 < Rot b \<longrightarrow> map_option tw_payload (tw_mem w' b)
               = map_option (\<lambda>t. tw_payload (t\<lparr>rotation := rotation t - 1\<rparr>)) (m3 b)"
        and gone: "\<forall>b\<in>set R. \<not> 0 < Rot b \<longrightarrow> tw_mem w' b = None"
        by (auto simp: w3)
      have c1: "\<forall>b. b \<notin> set (K @ a # R) \<longrightarrow> tw_mem w' b = ?m b"
      proof (intro allI impI)
        fix b assume b: "b \<notin> set (K @ a # R)"
        then have "Some b \<noteq> tw_next t" using nlive by auto
        with b out m3_out show "tw_mem w' b = ?m b" by auto
      qed
      have c3: "\<forall>b\<in>set (a # R). 0 < Rot b \<longrightarrow> map_option tw_payload (tw_mem w' b)
               = map_option (\<lambda>t. tw_payload (t\<lparr>rotation := rotation t - 1\<rparr>)) (?m b)"
      proof (intro ballI impI)
        fix b assume b: "b \<in> set (a # R)" "0 < Rot b"
        with False have br: "b \<in> set R" "b \<noteq> a" using ne by auto
        have "map_option (\<lambda>t. tw_payload (t\<lparr>rotation := rotation t - 1\<rparr>)) (m3 b)
            = map_option (\<lambda>t. tw_payload (t\<lparr>rotation := rotation t - 1\<rparr>)) (?m b)"
          using br nlive by (auto simp: m3_def tw_payload_def split: option.splits)
        with dec br b show "map_option tw_payload (tw_mem w' b)
               = map_option (\<lambda>t. tw_payload (t\<lparr>rotation := rotation t - 1\<rparr>)) (?m b)" by simp
      qed
      have c4: "\<forall>b\<in>set (a # R). \<not> 0 < Rot b \<longrightarrow> tw_mem w' b = None"
        using gone out m3_a ne by auto
      show ?thesis
        using step r d f sl c1 c3 c4 False Nil w3 Cons.prems(4) by (intro exI [of _ w']) simp
    next
      case (snoc K' p)
      with Cons.prems(1) tmp obtain tp where k_seg: "dseg tw_next tw_prev ?m None (slots w ! c) K' (Some p)"
        and tp: "?m p = Some tp" and ptp: "tw_prev tp = lastp None K'" and ntp: "tw_next tp = Some a"
        by (auto simp: dseg_snoc)
      from pt snoc have pt': "tw_prev t = Some p" by simp
      from ne snoc Cons.prems(3) have pne: "p \<noteq> a" "p \<notin> set K'" "a \<notin> set K'" "p \<notin> set R" "distinct K'"
        by auto
      have hdne: "Some a \<noteq> slots w ! c"
        using dseg_nonempty_head [OF Cons.prems(1)] snoc ne by (cases K') auto
      define m3 where "m3 = (case tw_next t of None \<Rightarrow> (?m(p \<mapsto> tp\<lparr>tw_next := None\<rparr>))(a := None)
           | Some n \<Rightarrow> (?m(p \<mapsto> tp\<lparr>tw_next := Some n\<rparr>, n \<mapsto> (the (?m n))\<lparr>tw_prev := Some p\<rparr>))(a := None))"
      define w3 where "w3 = w1\<lparr>tw_mem := m3\<rparr>"
      have nlive: "\<exists>tn. ?m n = Some tn \<and> n \<noteq> a \<and> n \<in> set R \<and> n \<noteq> p \<and> n \<notin> set K'"
        if "tw_next t = Some n" for n
        using rest that ne pne snoc by (cases R) (auto simp: dseg_Cons)
      have step: "wheel_tick_loop tmp w = wheel_tick_loop (tw_next t) w3"
      proof (cases "tw_next t")
        case None
        then have "tw_unlink a (tw_mem w1) = Inr (?m(p \<mapsto> tp\<lparr>tw_next := None\<rparr>))"
          using t pt' tp pne by (simp add: tw_unlink_def upd_def w1_def)
        then show ?thesis
          using None tmp t rot False cbf dat rdc hdne pne
          by (subst wheel_tick_loop.simps)
             (simp add: Let_def w1_def w3_def m3_def)
      next
        case (Some n)
        with nlive obtain tn where tn: "?m n = Some tn" "n \<noteq> a" "n \<noteq> p" by blast
        then have "tw_unlink a (tw_mem w1)
            = Inr (?m(p \<mapsto> tp\<lparr>tw_next := Some n\<rparr>, n \<mapsto> tn\<lparr>tw_prev := Some p\<rparr>))"
          using Some t pt' tp pne by (simp add: tw_unlink_def upd_def w1_def)
        then show ?thesis
          using Some tn tmp t rot False cbf dat rdc hdne pne
          by (subst wheel_tick_loop.simps)
             (simp add: Let_def w1_def w3_def m3_def)
      qed
      have w3: "tw_mem w3 = m3" "slots w3 = slots w" "cur_slot w3 = int c"
        "tw_fresh w3 = tw_fresh w" "tw_fired w3 = tw_fired w @ [Invoke a (F a) (D a)]"
        using Cons.prems(4) by (simp_all add: w3_def w1_def)
      have m3_out: "m3 b = ?m b" if "b \<noteq> a" "b \<noteq> p" "Some b \<noteq> tw_next t" for b
        using that by (auto simp: m3_def split: option.splits)
      have m3_a: "m3 a = None"
        by (auto simp: m3_def split: option.splits)
      have m3_p: "m3 p = Some (tp\<lparr>tw_next := tw_next t\<rparr>)"
        using pne nlive by (auto simp: m3_def split: option.splits)
      have m3_pay: "map_option tw_payload (m3 b) = map_option tw_payload (?m b)" if "b \<noteq> a" for b
        using that nlive tp by (auto simp: m3_def tw_payload_def split: option.splits)
      have m3_dec: "map_option (\<lambda>t. tw_payload (t\<lparr>rotation := rotation t - 1\<rparr>)) (m3 b)
            = map_option (\<lambda>t. tw_payload (t\<lparr>rotation := rotation t - 1\<rparr>)) (?m b)" if "b \<noteq> a" for b
        using that nlive tp by (auto simp: m3_def tw_payload_def split: option.splits)
      have segK: "dseg tw_next tw_prev m3 None (slots w ! c) K (tw_next t)"
      proof -
        have "dseg tw_next tw_prev m3 None (slots w ! c) K' (Some p)"
          using k_seg pne nlive
          by (subst dseg_frame [where m = ?m]) (auto simp: m3_def split: option.splits)
        then show ?thesis using snoc m3_p ptp by (simp add: dseg_snoc)
      qed
      have segR: "dseg tw_next tw_prev m3 (Some p) (tw_next t) R None"
      proof (cases R)
        case Nil with rest show ?thesis by simp
      next
        case (Cons n R')
        with rest obtain tn where nt: "tw_next t = Some n" and tn: "?m n = Some tn"
          and r': "dseg tw_next tw_prev ?m (Some n) (tw_next tn) R' None"
          by (auto simp: dseg_Cons)
        from ne pne Cons have nn: "n \<noteq> a" "n \<notin> set R'" "a \<notin> set R'" "n \<noteq> p" "p \<notin> set R'" by auto
        have "dseg tw_next tw_prev m3 (Some n) (tw_next tn) R' None"
          using r' nn nt by (subst dseg_frame [where m = ?m]) (auto simp: m3_def)
        then show ?thesis using Cons nt tn nn by (simp add: dseg_Cons m3_def)
      qed
      have "\<exists>w'. wheel_tick_loop (tw_next t) w3 = Some (Inr w')
        \<and> dseg tw_next tw_prev (tw_mem w') None (slots w' ! c) (K @ filter (\<lambda>a. 0 < Rot a) R) None
        \<and> tw_fired w' = tw_fired w3 @ map (\<lambda>a. Invoke a (F a) (D a)) (filter (\<lambda>a. \<not> 0 < Rot a) R)
        \<and> (\<forall>i. i \<noteq> c \<longrightarrow> slots w' ! i = slots w3 ! i) \<and> length (slots w') = length (slots w3)
        \<and> cur_slot w' = cur_slot w3 \<and> tw_fresh w' = tw_fresh w3
        \<and> (\<forall>b. b \<notin> set (K @ R) \<longrightarrow> tw_mem w' b = tw_mem w3 b)
        \<and> (\<forall>b\<in>set K. map_option tw_payload (tw_mem w' b) = map_option tw_payload (tw_mem w3 b))
        \<and> (\<forall>b\<in>set R. 0 < Rot b \<longrightarrow> map_option tw_payload (tw_mem w' b)
               = map_option (\<lambda>t. tw_payload (t\<lparr>rotation := rotation t - 1\<rparr>)) (tw_mem w3 b))
        \<and> (\<forall>b\<in>set R. \<not> 0 < Rot b \<longrightarrow> tw_mem w' b = None)"
      proof (rule Cons.IH)
        show "dseg tw_next tw_prev (tw_mem w3) None (slots w3 ! c) K (tw_next t)"
          using segK by (simp add: w3)
        show "dseg tw_next tw_prev (tw_mem w3) (lastp None K) (tw_next t) R None"
          using segR snoc by (simp add: w3)
        show "distinct (K @ R)" using Cons.prems(3) by simp
        show "cur_slot w3 = int c" by (simp add: w3)
        show "c < length (slots w3)" using Cons.prems(5) by (simp add: w3)
        show "\<forall>a\<in>set R. \<exists>t. tw_mem w3 a = Some t \<and> rotation t = Rot a \<and> tw_user_data t = D a
         \<and> (\<not> 0 < Rot a \<longrightarrow> tw_cb_func t = Func (F a))"
        proof
          fix b assume b: "b \<in> set R"
          with Cons.prems(6) obtain tb where tb: "?m b = Some tb" "rotation tb = Rot b"
            "tw_user_data tb = D b" "\<not> 0 < Rot b \<longrightarrow> tw_cb_func tb = Func (F b)" by auto
          from b ne pne have "b \<noteq> a" "b \<noteq> p" by auto
          with tb show "\<exists>t. tw_mem w3 b = Some t \<and> rotation t = Rot b \<and> tw_user_data t = D b
              \<and> (\<not> 0 < Rot b \<longrightarrow> tw_cb_func t = Func (F b))"
            by (auto simp: w3 m3_def split: option.splits)
        qed
      qed
      then obtain w' where r: "wheel_tick_loop (tw_next t) w3 = Some (Inr w')"
        and d: "dseg tw_next tw_prev (tw_mem w') None (slots w' ! c) (K @ filter (\<lambda>a. 0 < Rot a) R) None"
        and f: "tw_fired w' = tw_fired w3 @ map (\<lambda>a. Invoke a (F a) (D a)) (filter (\<lambda>a. \<not> 0 < Rot a) R)"
        and sl: "\<forall>i. i \<noteq> c \<longrightarrow> slots w' ! i = slots w3 ! i" "length (slots w') = length (slots w3)"
          "cur_slot w' = cur_slot w3" "tw_fresh w' = tw_fresh w3"
        and out: "\<forall>b. b \<notin> set (K @ R) \<longrightarrow> tw_mem w' b = m3 b"
        and kept: "\<forall>b\<in>set K. map_option tw_payload (tw_mem w' b) = map_option tw_payload (m3 b)"
        and dec: "\<forall>b\<in>set R. 0 < Rot b \<longrightarrow> map_option tw_payload (tw_mem w' b)
               = map_option (\<lambda>t. tw_payload (t\<lparr>rotation := rotation t - 1\<rparr>)) (m3 b)"
        and gone: "\<forall>b\<in>set R. \<not> 0 < Rot b \<longrightarrow> tw_mem w' b = None"
        by (auto simp: w3)
      have c1: "\<forall>b. b \<notin> set (K @ a # R) \<longrightarrow> tw_mem w' b = ?m b"
      proof (intro allI impI)
        fix b assume b: "b \<notin> set (K @ a # R)"
        then have "Some b \<noteq> tw_next t" "b \<noteq> p" using nlive snoc by auto
        with b out m3_out show "tw_mem w' b = ?m b" by auto
      qed
      have c2: "\<forall>b\<in>set K. map_option tw_payload (tw_mem w' b) = map_option tw_payload (?m b)"
      proof
        fix b assume b: "b \<in> set K"
        with ne have "b \<noteq> a" by auto
        with kept b m3_pay [of b] show "map_option tw_payload (tw_mem w' b) = map_option tw_payload (?m b)"
          by simp
      qed
      have c3: "\<forall>b\<in>set (a # R). 0 < Rot b \<longrightarrow> map_option tw_payload (tw_mem w' b)
               = map_option (\<lambda>t. tw_payload (t\<lparr>rotation := rotation t - 1\<rparr>)) (?m b)"
      proof (intro ballI impI)
        fix b assume b: "b \<in> set (a # R)" "0 < Rot b"
        with False have br: "b \<in> set R" "b \<noteq> a" using ne by auto
        with dec b m3_dec [of b] show "map_option tw_payload (tw_mem w' b)
               = map_option (\<lambda>t. tw_payload (t\<lparr>rotation := rotation t - 1\<rparr>)) (?m b)" by simp
      qed
      have c4: "\<forall>b\<in>set (a # R). \<not> 0 < Rot b \<longrightarrow> tw_mem w' b = None"
        using gone out m3_a ne by auto
      show ?thesis
        using step r d f sl c1 c2 c3 c4 False w3 Cons.prems(4) by (intro exI [of _ w']) simp
    qed
  qed
qed


lemma wheel_isD: "wheel_is w bs \<Longrightarrow> i < nat N \<Longrightarrow> bucket_is w bs i"
  by (simp add: wheel_is_def list_all_iff)

lemma bucket_isD:
  assumes "bucket_is w bs i"
  shows "dseg tw_next tw_prev (tw_mem w) None (slots w ! i) (bs ! i) None" "distinct (bs ! i)"
    "\<And>a. a \<in> set (bs ! i) \<Longrightarrow> tw_slot w a = int i"
  using assms by (auto simp: bucket_is_def list_all_iff)

lemma wheel_is_update:
  assumes wis: "wheel_is w bs" and c: "c < nat N"
    and seg: "dseg tw_next tw_prev (tw_mem w') None (slots w' ! c) B None"
    and dist: "distinct B"
    and sl: "\<forall>i. i \<noteq> c \<longrightarrow> slots w' ! i = slots w ! i" "length (slots w') = length (slots w)"
    and cs: "0 \<le> cur_slot w'" "cur_slot w' < N"
    and out: "\<forall>b. b \<notin> set (bs ! c) \<longrightarrow> tw_mem w' b = tw_mem w b"
    and ts: "\<forall>b\<in>set B. tw_slot w' b = int c"
  shows "wheel_is w' (bs[c := B])"
proof -
  from wis have len: "length (slots w) = nat N" "length bs = nat N" by (simp_all add: wheel_is_def)
  have "bucket_is w' (bs[c := B]) i" if i: "i < nat N" for i
  proof (cases "i = c")
    case True
    with seg dist ts len c show ?thesis by (simp add: bucket_is_def list_all_iff)
  next
    case False
    note b = bucket_isD [OF wheel_isD [OF wis i]]
    have same: "tw_mem w' b = tw_mem w b" if "b \<in> set (bs ! i)" for b
    proof -
      from b(3) [OF that] False have "b \<notin> set (bs ! c)"
        using bucket_isD(3) [OF wheel_isD [OF wis c], of b] by auto
      with out show ?thesis by simp
    qed
    have "dseg tw_next tw_prev (tw_mem w') None (slots w ! i) (bs ! i) None"
      using b(1) same by (subst dseg_frame [where m = "tw_mem w"]) auto
    moreover have "tw_slot w' b = int i" if "b \<in> set (bs ! i)" for b
      using b(3) [OF that] same [OF that] by (simp add: tw_slot_def)
    ultimately show ?thesis using False sl b(2) by (simp add: bucket_is_def list_all_iff)
  qed
  with len sl cs show ?thesis by (simp add: wheel_is_def list_all_iff)
qed

lemma wheel_tick_correct:
  assumes wis: "wheel_is w bs"
    and cbs: "\<forall>a\<in>set (bs ! nat (cur_slot w)). tw_due w a \<longrightarrow> (\<exists>f. tw_cb w a = Func f)"
  shows "\<exists>w'. wheel_tick w = Some (Inr w')
       \<and> wheel_is w' (bs[nat (cur_slot w) := filter (\<lambda>a. \<not> tw_due w a) (bs ! nat (cur_slot w))])
       \<and> tw_fired w' = tw_fired w @ concat (map (tw_event w) (filter (tw_due w) (bs ! nat (cur_slot w))))
       \<and> cur_slot w' = (cur_slot w + 1) mod N
       \<and> (\<forall>a\<in>set (bs ! nat (cur_slot w)). tw_due w a \<longrightarrow> tw_mem w' a = None)
       \<and> (\<forall>a\<in>set (bs ! nat (cur_slot w)). \<not> tw_due w a \<longrightarrow>
             tw_rot w' a = tw_rot w a - 1 \<and> tw_cb w' a = tw_cb w a)
       \<and> (\<forall>a. a \<notin> set (bs ! nat (cur_slot w)) \<longrightarrow> tw_mem w' a = tw_mem w a)"
proof -
  define c where "c = nat (cur_slot w)"
  define F where "F a = (case tw_cb w a of Func f \<Rightarrow> f | _ \<Rightarrow> 0)" for a
  define D where "D a = tw_user_data (the (tw_mem w a))" for a
  let ?Rot = "tw_rot w"
  from wis have len: "length (slots w) = nat N" and cs: "0 \<le> cur_slot w" "cur_slot w < N"
    by (simp_all add: wheel_is_def)
  then have c: "c < nat N" "cur_slot w = int c" "c < length (slots w)" by (simp_all add: c_def)
  note b = bucket_isD [OF wheel_isD [OF wis c(1)]]
  have due: "(\<lambda>a. \<not> tw_due w a) = (\<lambda>a. 0 < ?Rot a)" "tw_due w = (\<lambda>a. \<not> 0 < ?Rot a)"
    by (simp_all add: fun_eq_iff tw_due_def)
  have pre: "\<forall>a\<in>set (bs ! c). \<exists>t. tw_mem w a = Some t \<and> rotation t = ?Rot a \<and> tw_user_data t = D a
         \<and> (\<not> 0 < ?Rot a \<longrightarrow> tw_cb_func t = Func (F a))"
  proof
    fix a assume a: "a \<in> set (bs ! c)"
    then obtain t where t: "tw_mem w a = Some t" using dseg_live [OF b(1)] by blast
    with cbs a show "\<exists>t. tw_mem w a = Some t \<and> rotation t = ?Rot a \<and> tw_user_data t = D a
         \<and> (\<not> 0 < ?Rot a \<longrightarrow> tw_cb_func t = Func (F a))"
      by (auto simp: tw_rot_def D_def F_def tw_cb_def tw_due_def c_def)
  qed
  have s0: "dseg tw_next tw_prev (tw_mem w) None (slots w ! c) [] (slots w ! c)" by simp
  have s1: "dseg tw_next tw_prev (tw_mem w) (lastp None []) (slots w ! c) (bs ! c) None"
    using b(1) by simp
  have d0: "distinct ([] @ bs ! c)" using b(2) by simp
  from wheel_tick_loop_correct [OF s0 s1 d0 c(2) c(3) pre] obtain w1 where
    r: "wheel_tick_loop (slots w ! c) w = Some (Inr w1)"
    and d: "dseg tw_next tw_prev (tw_mem w1) None (slots w1 ! c) (filter (\<lambda>a. 0 < ?Rot a) (bs ! c)) None"
    and f: "tw_fired w1 = tw_fired w @ map (\<lambda>a. Invoke a (F a) (D a)) (filter (\<lambda>a. \<not> 0 < ?Rot a) (bs ! c))"
    and sl: "\<forall>i. i \<noteq> c \<longrightarrow> slots w1 ! i = slots w ! i" "length (slots w1) = length (slots w)"
    and cs1: "cur_slot w1 = cur_slot w"
    and out: "\<forall>b. b \<notin> set (bs ! c) \<longrightarrow> tw_mem w1 b = tw_mem w b"
    and dec: "\<forall>b\<in>set (bs ! c). 0 < ?Rot b \<longrightarrow> map_option tw_payload (tw_mem w1 b)
               = map_option (\<lambda>t. tw_payload (t\<lparr>rotation := rotation t - 1\<rparr>)) (tw_mem w b)"
    and gone: "\<forall>b\<in>set (bs ! c). \<not> 0 < ?Rot b \<longrightarrow> tw_mem w1 b = None"
    by auto
  define w' where "w' = w1\<lparr>cur_slot := (cur_slot w1 + 1) mod N\<rparr>"
  have res: "wheel_tick w = Some (Inr w')"
    using r c by (simp add: wheel_tick_def rd_def w'_def)
  have w': "tw_mem w' = tw_mem w1" "slots w' = slots w1" "tw_fired w' = tw_fired w1"
    "cur_slot w' = (cur_slot w + 1) mod N"
    by (simp_all add: w'_def cs1)
  have surv: "tw_slot w' a = tw_slot w a \<and> tw_rot w' a = tw_rot w a - 1 \<and> tw_cb w' a = tw_cb w a"
    if a: "a \<in> set (bs ! c)" "0 < ?Rot a" for a
  proof -
    from pre a obtain t where t: "tw_mem w a = Some t" by blast
    with dec a have "map_option tw_payload (tw_mem w1 a) = Some (tw_payload (t\<lparr>rotation := rotation t - 1\<rparr>))"
      by simp
    then obtain t1 where "tw_mem w1 a = Some t1" "tw_payload t1 = tw_payload (t\<lparr>rotation := rotation t - 1\<rparr>)"
      by auto
    with t show ?thesis by (simp add: tw_slot_def tw_rot_def tw_cb_def w' tw_payload_def)
  qed
  have ev: "map (\<lambda>a. Invoke a (F a) (D a)) (filter (\<lambda>a. \<not> 0 < ?Rot a) (bs ! c))
      = concat (map (tw_event w) (filter (\<lambda>a. \<not> 0 < ?Rot a) (bs ! c)))"
  proof -
    have "tw_event w a = [Invoke a (F a) (D a)]" if "a \<in> set (filter (\<lambda>a. \<not> 0 < ?Rot a) (bs ! c))" for a
    proof -
      from that cbs obtain f where "tw_cb w a = Func f" by (auto simp: tw_due_def c_def)
      then show ?thesis by (simp add: tw_event_def F_def D_def)
    qed
    then have "map (tw_event w) (filter (\<lambda>a. \<not> 0 < ?Rot a) (bs ! c))
        = map (\<lambda>a. [Invoke a (F a) (D a)]) (filter (\<lambda>a. \<not> 0 < ?Rot a) (bs ! c))"
      by simp
    then show ?thesis by (simp del: map_eq_conv)
  qed
  have wis': "wheel_is w' (bs[c := filter (\<lambda>a. 0 < ?Rot a) (bs ! c)])"
  proof (rule wheel_is_update [OF wis c(1)])
    show "dseg tw_next tw_prev (tw_mem w') None (slots w' ! c) (filter (\<lambda>a. 0 < ?Rot a) (bs ! c)) None"
      using d by (simp add: w')
    show "distinct (filter (\<lambda>a. 0 < ?Rot a) (bs ! c))" using b(2) by simp
    show "\<forall>i. i \<noteq> c \<longrightarrow> slots w' ! i = slots w ! i" using sl by (simp add: w')
    show "length (slots w') = length (slots w)" using sl by (simp add: w')
    show "0 \<le> cur_slot w'" "cur_slot w' < N" by (simp_all add: w' N_def)
    show "\<forall>b. b \<notin> set (bs ! c) \<longrightarrow> tw_mem w' b = tw_mem w b" using out by (simp add: w')
    show "\<forall>b\<in>set (filter (\<lambda>a. 0 < ?Rot a) (bs ! c)). tw_slot w' b = int c"
      using surv b(3) by auto
  qed
  show ?thesis
    unfolding c_def [symmetric] due
    using res wis' f ev w' gone surv out by (intro exI [of _ w']) simp
qed

lemma wheel_del_timer_correct:
  assumes wis: "wheel_is w bs" and i: "i < nat N" and mem: "a \<in> set (bs ! i)"
  shows "\<exists>w'. wheel_del_timer (Some a) w = Inr w' \<and> wheel_is w' (bs[i := remove1 a (bs ! i)])
       \<and> tw_mem w' a = None
       \<and> (\<forall>b. b \<noteq> a \<longrightarrow> map_option tw_payload (tw_mem w' b) = map_option tw_payload (tw_mem w b))
       \<and> tw_fired w' = tw_fired w \<and> cur_slot w' = cur_slot w \<and> tw_fresh w' = tw_fresh w"
proof -
  let ?m = "tw_mem w"
  note b = bucket_isD [OF wheel_isD [OF wis i]]
  from wis have len: "length (slots w) = nat N" and cs: "0 \<le> cur_slot w" "cur_slot w < N"
    by (simp_all add: wheel_is_def)
  from mem obtain pre post where bsi: "bs ! i = pre @ a # post" by (auto dest: split_list)
  with b(2) have ne: "a \<notin> set pre" "a \<notin> set post" "distinct pre" "distinct post"
    "set pre \<inter> set post = {}" by auto
  from b(1) bsi obtain t where pre_seg: "dseg tw_next tw_prev ?m None (slots w ! i) pre (Some a)"
    and t: "?m a = Some t" and pt: "tw_prev t = lastp None pre"
    and rest: "dseg tw_next tw_prev ?m (Some a) (tw_next t) post None"
    by (auto simp: dseg_append dseg_Cons)
  from b(3) [OF mem] t have tsl: "time_slot t = int i" by (simp add: tw_slot_def)
  have rdc: "rd (slots w) (time_slot t) = Inr (slots w ! i)"
    using tsl i len by (simp add: rd_def N_def)
  have rm: "remove1 a (bs ! i) = pre @ post"
    using bsi ne by (simp add: remove1_append)
  have "\<exists>w'. wheel_del_timer (Some a) w = Inr w'
       \<and> dseg tw_next tw_prev (tw_mem w') None (slots w' ! i) (pre @ post) None
       \<and> tw_mem w' a = None
       \<and> (\<forall>b. b \<noteq> a \<longrightarrow> map_option tw_payload (tw_mem w' b) = map_option tw_payload (?m b))
       \<and> (\<forall>b. b \<notin> set (bs ! i) \<longrightarrow> tw_mem w' b = ?m b)
       \<and> (\<forall>j. j \<noteq> i \<longrightarrow> slots w' ! j = slots w ! j) \<and> length (slots w') = length (slots w)
       \<and> tw_fired w' = tw_fired w \<and> cur_slot w' = cur_slot w \<and> tw_fresh w' = tw_fresh w"
  proof (cases pre rule: rev_cases)
    case Nil
    with pre_seg have hd: "slots w ! i = Some a" by simp
    define m3 where "m3 = (case tw_next t of None \<Rightarrow> ?m(a := None)
           | Some n \<Rightarrow> (?m(n \<mapsto> (the (?m n))\<lparr>tw_prev := None\<rparr>))(a := None))"
    define w3 where "w3 = w\<lparr>slots := (slots w)[i := tw_next t], tw_mem := m3\<rparr>"
    have nlive: "\<exists>tn. ?m n = Some tn \<and> n \<noteq> a \<and> n \<in> set post" if "tw_next t = Some n" for n
      using rest that ne by (cases post) (auto simp: dseg_Cons)
    have step: "wheel_del_timer (Some a) w = Inr w3"
    proof (cases "tw_next t")
      case None
      then show ?thesis
        using t rdc hd tsl by (simp add: wheel_del_timer_def Let_def w3_def m3_def)
    next
      case (Some n)
      with nlive obtain tn where "?m n = Some tn" "n \<noteq> a" by blast
      then show ?thesis
        using Some t rdc hd tsl by (simp add: wheel_del_timer_def Let_def w3_def m3_def upd_def)
    qed
    have seg3: "dseg tw_next tw_prev m3 None (tw_next t) post None"
    proof (cases post)
      case Nil with rest show ?thesis by simp
    next
      case (Cons n R')
      with rest obtain tn where nt: "tw_next t = Some n" and tn: "?m n = Some tn"
        and r': "dseg tw_next tw_prev ?m (Some n) (tw_next tn) R' None"
        by (auto simp: dseg_Cons)
      from ne Cons have nn: "n \<noteq> a" "n \<notin> set R'" "a \<notin> set R'" by auto
      have "dseg tw_next tw_prev m3 (Some n) (tw_next tn) R' None"
        using r' nn nt by (subst dseg_frame [where m = ?m]) (auto simp: m3_def)
      then show ?thesis using Cons nt tn nn by (simp add: dseg_Cons m3_def)
    qed
    have "m3 a = None" by (auto simp: m3_def split: option.splits)
    moreover have "\<forall>b. b \<noteq> a \<longrightarrow> map_option tw_payload (m3 b) = map_option tw_payload (?m b)"
      using nlive by (auto simp: m3_def tw_payload_def split: option.splits)
    moreover have "\<forall>b. b \<notin> set (bs ! i) \<longrightarrow> m3 b = ?m b"
      using nlive bsi by (auto simp: m3_def split: option.splits)
    ultimately show ?thesis
      using step seg3 Nil i len by (intro exI [of _ w3]) (simp add: w3_def)
  next
    case (snoc K' p)
    with pre_seg obtain tp where k_seg: "dseg tw_next tw_prev ?m None (slots w ! i) K' (Some p)"
      and tp: "?m p = Some tp" and ptp: "tw_prev tp = lastp None K'" and ntp: "tw_next tp = Some a"
      by (auto simp: dseg_snoc)
    from pt snoc have pt': "tw_prev t = Some p" by simp
    from ne snoc b(2) bsi have pne: "p \<noteq> a" "p \<notin> set K'" "a \<notin> set K'" "p \<notin> set post" "distinct K'"
      by auto
    have hdne: "Some a \<noteq> slots w ! i"
      using dseg_nonempty_head [OF pre_seg] snoc ne by (cases K') auto
    define m3 where "m3 = (case tw_next t of None \<Rightarrow> (?m(p \<mapsto> tp\<lparr>tw_next := None\<rparr>))(a := None)
           | Some n \<Rightarrow> (?m(p \<mapsto> tp\<lparr>tw_next := Some n\<rparr>, n \<mapsto> (the (?m n))\<lparr>tw_prev := Some p\<rparr>))(a := None))"
    define w3 where "w3 = w\<lparr>tw_mem := m3\<rparr>"
    have nlive: "\<exists>tn. ?m n = Some tn \<and> n \<noteq> a \<and> n \<in> set post \<and> n \<noteq> p \<and> n \<notin> set K'"
      if "tw_next t = Some n" for n
      using rest that ne pne snoc by (cases post) (auto simp: dseg_Cons)
    have step: "wheel_del_timer (Some a) w = Inr w3"
    proof (cases "tw_next t")
      case None
      then have "tw_unlink a ?m = Inr (?m(p \<mapsto> tp\<lparr>tw_next := None\<rparr>))"
        using t pt' tp pne by (simp add: tw_unlink_def upd_def)
      then show ?thesis
        using None t rdc hdne by (simp add: wheel_del_timer_def w3_def m3_def)
    next
      case (Some n)
      with nlive obtain tn where tn: "?m n = Some tn" "n \<noteq> a" "n \<noteq> p" by blast
      then have "tw_unlink a ?m
          = Inr (?m(p \<mapsto> tp\<lparr>tw_next := Some n\<rparr>, n \<mapsto> tn\<lparr>tw_prev := Some p\<rparr>))"
        using Some t pt' tp pne by (simp add: tw_unlink_def upd_def)
      then show ?thesis
        using Some tn t rdc hdne by (simp add: wheel_del_timer_def w3_def m3_def)
    qed
    have m3_p: "m3 p = Some (tp\<lparr>tw_next := tw_next t\<rparr>)"
      using pne nlive by (auto simp: m3_def split: option.splits)
    have segK: "dseg tw_next tw_prev m3 None (slots w ! i) pre (tw_next t)"
    proof -
      have "dseg tw_next tw_prev m3 None (slots w ! i) K' (Some p)"
        using k_seg pne nlive
        by (subst dseg_frame [where m = ?m]) (auto simp: m3_def split: option.splits)
      then show ?thesis using snoc m3_p ptp by (simp add: dseg_snoc)
    qed
    have segR: "dseg tw_next tw_prev m3 (Some p) (tw_next t) post None"
    proof (cases post)
      case Nil with rest show ?thesis by simp
    next
      case (Cons n R')
      with rest obtain tn where nt: "tw_next t = Some n" and tn: "?m n = Some tn"
        and r': "dseg tw_next tw_prev ?m (Some n) (tw_next tn) R' None"
        by (auto simp: dseg_Cons)
      from ne pne Cons have nn: "n \<noteq> a" "n \<notin> set R'" "a \<notin> set R'" "n \<noteq> p" "p \<notin> set R'" by auto
      have "dseg tw_next tw_prev m3 (Some n) (tw_next tn) R' None"
        using r' nn nt by (subst dseg_frame [where m = ?m]) (auto simp: m3_def)
      then show ?thesis using Cons nt tn nn by (simp add: dseg_Cons m3_def)
    qed
    have seg3: "dseg tw_next tw_prev m3 None (slots w ! i) (pre @ post) None"
    proof -
      have "lastp None pre = Some p" using snoc by simp
      with segR have "dseg tw_next tw_prev m3 (lastp None pre) (tw_next t) post None" by simp
      with segK show ?thesis unfolding dseg_append by blast
    qed
    have "m3 a = None" by (auto simp: m3_def split: option.splits)
    moreover have "\<forall>b. b \<noteq> a \<longrightarrow> map_option tw_payload (m3 b) = map_option tw_payload (?m b)"
      using nlive tp by (auto simp: m3_def tw_payload_def split: option.splits)
    moreover have "\<forall>b. b \<notin> set (bs ! i) \<longrightarrow> m3 b = ?m b"
      using nlive bsi snoc by (auto simp: m3_def split: option.splits)
    ultimately show ?thesis
      using step seg3 by (intro exI [of _ w3]) (simp add: w3_def)
  qed
  then obtain w' where r: "wheel_del_timer (Some a) w = Inr w'"
    and seg: "dseg tw_next tw_prev (tw_mem w') None (slots w' ! i) (pre @ post) None"
    and gone: "tw_mem w' a = None"
    and pay: "\<forall>b. b \<noteq> a \<longrightarrow> map_option tw_payload (tw_mem w' b) = map_option tw_payload (?m b)"
    and out: "\<forall>b. b \<notin> set (bs ! i) \<longrightarrow> tw_mem w' b = ?m b"
    and sl: "\<forall>j. j \<noteq> i \<longrightarrow> slots w' ! j = slots w ! j" "length (slots w') = length (slots w)"
    and same: "tw_fired w' = tw_fired w" "cur_slot w' = cur_slot w" "tw_fresh w' = tw_fresh w"
    by blast
  have wis': "wheel_is w' (bs[i := pre @ post])"
  proof (rule wheel_is_update [OF wis i seg])
    show "distinct (pre @ post)" using ne by auto
    show "\<forall>j. j \<noteq> i \<longrightarrow> slots w' ! j = slots w ! j" by (rule sl)
    show "length (slots w') = length (slots w)" by (rule sl)
    show "0 \<le> cur_slot w'" "cur_slot w' < N" using cs same by simp_all
    show "\<forall>b. b \<notin> set (bs ! i) \<longrightarrow> tw_mem w' b = ?m b" by (rule out)
    show "\<forall>b\<in>set (pre @ post). tw_slot w' b = int i"
    proof
      fix b assume bb: "b \<in> set (pre @ post)"
      with ne have "b \<noteq> a" by auto
      from bb bsi have bi: "b \<in> set (bs ! i)" by auto
      then obtain tb where tb: "?m b = Some tb" using dseg_live [OF b(1)] by blast
      with pay \<open>b \<noteq> a\<close> have "map_option tw_payload (tw_mem w' b) = Some (tw_payload tb)" by simp
      then obtain tb' where "tw_mem w' b = Some tb'" "tw_payload tb' = tw_payload tb" by auto
      with tb b(3) [OF bi] show "tw_slot w' b = int i" by (simp add: tw_slot_def tw_payload_def)
    qed
  qed
  show ?thesis using r wis' gone pay same unfolding rm by blast
qed

section \<open>Firing order\<close>

text \<open>
  What \<^verbatim>\<open>tick\<close> and cancelling do on a well-formed queue whose due timers all have a
  callback to call. For each of the three strategies \<^verbatim>\<open>tick\<close> returns and calls exactly
  the callbacks of the due timers, each once, and destroys the timers it fired, so that
  none of them can fire again; the timers that are not due stay in the queue and none of
  their callbacks is called.
  For the sorted list (in ascending order) the due timers are those with
  \<open>expire \<le> cur\<close>, fired in list order. For the heap they are the records with
  \<open>expire \<le> cur\<close>; a record whose callback is null (a cancelled one) contributes no call.
  For the wheel they are the timers of the current slot whose rotation is not positive,
  fired in slot order; the other timers of that slot have their rotation decremented and
  the timers of the other slots are untouched. Cancelling removes the timer from the list
  or from its slot of the wheel and destroys it, and in the heap it leaves a record that
  contributes no call: a later \<^verbatim>\<open>tick\<close> does not call its callback.
\<close>

lemma tick_fires_due_timers:
  "(lst_is l as \<and> sorted (lst_keys l as)
      \<and> (\<forall>a\<in>set as. lst_due cur l a \<longrightarrow> (\<exists>f. lst_cb l a = Func f)) \<longrightarrow>
      (\<exists>l'. lst_tick cur l = Some (Inr l')
         \<and> ut_fired l' = ut_fired l @ concat (map (lst_event l) (filter (lst_due cur l) as))
         \<and> lst_is l' (filter (\<lambda>a. \<not> lst_due cur l a) as)
         \<and> sorted (lst_keys l' (filter (\<lambda>a. \<not> lst_due cur l a) as))
         \<and> (\<forall>a\<in>set as. lst_due cur l a \<longrightarrow> ut_mem l' a = None)))
   \<and> (lst_is l as \<and> x \<in> set as \<longrightarrow>
      (\<exists>l'. lst_del_timer (Some x) l = Inr l' \<and> lst_is l' (remove1 x as) \<and> x \<notin> set (remove1 x as)
         \<and> ut_mem l' x = None \<and> ut_fired l' = ut_fired l))
   \<and> (heap_good h \<longrightarrow>
      (\<exists>h' es. heap_tick now h = Inr h' \<and> ht_fired h' = ht_fired h @ es
         \<and> distinct (map ev_timer es)
         \<and> set es = (\<Union>p \<in> {p \<in> set (heap_live h). heap_due now h p}. set (heap_event h p))
         \<and> mset (heap_live h') = filter_mset (\<lambda>p. \<not> heap_due now h p) (mset (heap_live h))
         \<and> (\<forall>p\<in>set (heap_live h). heap_due now h p \<longrightarrow> ht_mem h' (the p) = None)
         \<and> heap_good h'))
   \<and> (heap_good h \<and> ht_mem h y \<noteq> None \<longrightarrow>
      (\<exists>h'. heap_del_timer (Some y) h = Inr h' \<and> heap_good h' \<and> heap_event h' (Some y) = []
         \<and> heap_live h' = heap_live h \<and> ht_fired h' = ht_fired h))
   \<and> (wheel_is w bs
      \<and> (\<forall>a\<in>set (bs ! nat (cur_slot w)). tw_due w a \<longrightarrow> (\<exists>f. tw_cb w a = Func f)) \<longrightarrow>
      (\<exists>w'. wheel_tick w = Some (Inr w')
         \<and> tw_fired w' = tw_fired w
              @ concat (map (tw_event w) (filter (tw_due w) (bs ! nat (cur_slot w))))
         \<and> wheel_is w' (bs[nat (cur_slot w) := filter (\<lambda>a. \<not> tw_due w a) (bs ! nat (cur_slot w))])
         \<and> cur_slot w' = (cur_slot w + 1) mod N
         \<and> (\<forall>a\<in>set (bs ! nat (cur_slot w)). tw_due w a \<longrightarrow> tw_mem w' a = None)
         \<and> (\<forall>a\<in>set (bs ! nat (cur_slot w)). \<not> tw_due w a \<longrightarrow>
               tw_rot w' a = tw_rot w a - 1 \<and> tw_cb w' a = tw_cb w a)
         \<and> (\<forall>a. a \<notin> set (bs ! nat (cur_slot w)) \<longrightarrow> tw_mem w' a = tw_mem w a)))
   \<and> (wheel_is w bs \<and> i < nat N \<and> z \<in> set (bs ! i) \<longrightarrow>
      (\<exists>w'. wheel_del_timer (Some z) w = Inr w' \<and> wheel_is w' (bs[i := remove1 z (bs ! i)])
         \<and> z \<notin> set (concat (bs[i := remove1 z (bs ! i)]))
         \<and> tw_mem w' z = None \<and> tw_fired w' = tw_fired w))"
proof (intro conjI impI)
  assume A: "lst_is l as \<and> sorted (lst_keys l as)
      \<and> (\<forall>a\<in>set as. lst_due cur l a \<longrightarrow> (\<exists>f. lst_cb l a = Func f))"
  then have lis: "lst_is l as" and srt: "sorted (map (lst_expire l) as)"
    and cbs: "\<forall>a\<in>set as. lst_due cur l a \<longrightarrow> (\<exists>f. lst_cb l a = Func f)"
    by (simp_all add: lst_keys_expire)
  have due: "lst_due cur l = (\<lambda>a. lst_expire l a \<le> cur)" by (simp add: fun_eq_iff lst_due_def)
  from sorted_dropWhile_filter [OF srt, of cur]
  have dw: "dropWhile (lst_due cur l) as = filter (\<lambda>a. \<not> lst_due cur l a) as"
    and tw: "takeWhile (lst_due cur l) as = filter (lst_due cur l) as"
    unfolding due by simp_all
  from lst_tick_correct [OF lis cbs] obtain l' where
    r: "lst_tick cur l = Some (Inr l')" and lis': "lst_is l' (filter (\<lambda>a. \<not> lst_due cur l a) as)"
    and fired: "ut_fired l' = ut_fired l @ concat (map (lst_event l) (filter (lst_due cur l) as))"
    and pay: "\<forall>b. b \<notin> set (filter (lst_due cur l) as) \<longrightarrow>
           map_option ut_payload (ut_mem l' b) = map_option ut_payload (ut_mem l b)"
    and gone: "\<forall>b\<in>set (filter (lst_due cur l) as). ut_mem l' b = None"
    unfolding dw tw by blast
  have meq: "map (lst_expire l') (filter (\<lambda>a. \<not> lst_due cur l a) as)
      = map (lst_expire l) (filter (\<lambda>a. \<not> lst_due cur l a) as)"
    using pay by (auto intro: payload_expire)
  have "sorted (lst_keys l' (filter (\<lambda>a. \<not> lst_due cur l a) as))"
    unfolding lst_keys_expire meq by (rule sorted_filter [OF srt])
  moreover from gone have "\<forall>a\<in>set as. lst_due cur l a \<longrightarrow> ut_mem l' a = None" by simp
  ultimately show "\<exists>l'. lst_tick cur l = Some (Inr l')
         \<and> ut_fired l' = ut_fired l @ concat (map (lst_event l) (filter (lst_due cur l) as))
         \<and> lst_is l' (filter (\<lambda>a. \<not> lst_due cur l a) as)
         \<and> sorted (lst_keys l' (filter (\<lambda>a. \<not> lst_due cur l a) as))
         \<and> (\<forall>a\<in>set as. lst_due cur l a \<longrightarrow> ut_mem l' a = None)"
    using r fired lis' by blast
next
  assume A: "lst_is l as \<and> x \<in> set as"
  then have dist: "distinct as" by (simp add: lst_is_def)
  from A lst_del_timer_correct [of l as x] obtain l' where
    "lst_del_timer (Some x) l = Inr l'" "lst_is l' (remove1 x as)" "ut_mem l' x = None"
    "ut_fired l' = ut_fired l" by blast
  with dist show "\<exists>l'. lst_del_timer (Some x) l = Inr l' \<and> lst_is l' (remove1 x as)
         \<and> x \<notin> set (remove1 x as) \<and> ut_mem l' x = None \<and> ut_fired l' = ut_fired l"
    by auto
next
  assume g: "heap_good h"
  then have wf: "heap_wf h" and ord: "heap_ordered h" and len: "0 < length (array h)"
    and cbs: "\<And>p. p \<in> set (heap_live h) \<Longrightarrow> heap_cb h p \<noteq> Unset"
    by (auto simp: heap_good_def heap_wf_def)
  from heap_tick_loop_correct [OF wf ord len, of now] cbs obtain h' es where
    r: "heap_tick_loop now (array h ! 0) h = Inr h'"
    and ms: "mset (heap_live h') = filter_mset (\<lambda>p. \<not> heap_due now h p) (mset (heap_live h))"
    and mem: "ht_mem h' = (\<lambda>a. if Some a \<in> set (heap_live h) \<and> heap_due now h (Some a) then None
                             else ht_mem h a)"
    and fired: "ht_fired h' = ht_fired h @ es" and d: "distinct (map ev_timer es)"
    and es: "set es = (\<Union>p \<in> {p \<in> set (heap_live h). heap_due now h p}. set (heap_event h p))"
    by blast
  have t: "heap_tick now h = Inr h'"
    using r heap_tick_correct [OF wf ord len, of now] by simp
  from heap_step_total [OF g, of "Tick now"] t have g': "heap_good h'" by simp
  have "ht_mem h' (the p) = None" if "p \<in> set (heap_live h)" "heap_due now h p" for p
  proof -
    from that(1) wf obtain b where "p = Some b"
      by (auto simp: heap_wf_def list_all_iff dest: live_ptrD)
    with that show ?thesis by (simp add: mem)
  qed
  with t fired d es ms g' show "\<exists>h' es. heap_tick now h = Inr h' \<and> ht_fired h' = ht_fired h @ es
         \<and> distinct (map ev_timer es)
         \<and> set es = (\<Union>p \<in> {p \<in> set (heap_live h). heap_due now h p}. set (heap_event h p))
         \<and> mset (heap_live h') = filter_mset (\<lambda>p. \<not> heap_due now h p) (mset (heap_live h))
         \<and> (\<forall>p\<in>set (heap_live h). heap_due now h p \<longrightarrow> ht_mem h' (the p) = None)
         \<and> heap_good h'"
    by blast
next
  assume A: "heap_good h \<and> ht_mem h y \<noteq> None"
  then obtain t where t: "ht_mem h y = Some t" by auto
  from A have wf: "heap_wf h" and ord: "heap_ordered h" and cap: "0 < capacity h"
    and cbs: "\<And>p. p \<in> set (heap_live h) \<Longrightarrow> heap_cb h p \<noteq> Unset"
    by (auto simp: heap_good_def)
  define h' where "h' = h\<lparr>ht_mem := (ht_mem h)(y \<mapsto> t\<lparr>ht_cb_func := Null\<rparr>)\<rparr>"
  have r: "heap_del_timer (Some y) h = Inr h'"
    unfolding h'_def using t by (rule heap_del_timer_correct)
  note inv = heap_del_timer_inv [OF wf ord r]
  have "heap_good h'"
    using inv cap cbs by (auto simp: heap_good_def h'_def)
  moreover have "heap_event h' (Some y) = []"
    by (simp add: heap_event_def heap_cb_def h'_def)
  moreover have "ht_fired h' = ht_fired h" by (simp add: h'_def)
  ultimately show "\<exists>h'. heap_del_timer (Some y) h = Inr h' \<and> heap_good h'
         \<and> heap_event h' (Some y) = [] \<and> heap_live h' = heap_live h \<and> ht_fired h' = ht_fired h"
    using r inv(3) by blast
next
  assume A: "wheel_is w bs
      \<and> (\<forall>a\<in>set (bs ! nat (cur_slot w)). tw_due w a \<longrightarrow> (\<exists>f. tw_cb w a = Func f))"
  then show "\<exists>w'. wheel_tick w = Some (Inr w')
         \<and> tw_fired w' = tw_fired w
              @ concat (map (tw_event w) (filter (tw_due w) (bs ! nat (cur_slot w))))
         \<and> wheel_is w' (bs[nat (cur_slot w) := filter (\<lambda>a. \<not> tw_due w a) (bs ! nat (cur_slot w))])
         \<and> cur_slot w' = (cur_slot w + 1) mod N
         \<and> (\<forall>a\<in>set (bs ! nat (cur_slot w)). tw_due w a \<longrightarrow> tw_mem w' a = None)
         \<and> (\<forall>a\<in>set (bs ! nat (cur_slot w)). \<not> tw_due w a \<longrightarrow>
               tw_rot w' a = tw_rot w a - 1 \<and> tw_cb w' a = tw_cb w a)
         \<and> (\<forall>a. a \<notin> set (bs ! nat (cur_slot w)) \<longrightarrow> tw_mem w' a = tw_mem w a)"
    using wheel_tick_correct [of w bs] by blast
next
  assume A: "wheel_is w bs \<and> i < nat N \<and> z \<in> set (bs ! i)"
  with wheel_del_timer_correct [of w bs i z] obtain w' where
    r: "wheel_del_timer (Some z) w = Inr w'" and wis': "wheel_is w' (bs[i := remove1 z (bs ! i)])"
    and gone: "tw_mem w' z = None" and f: "tw_fired w' = tw_fired w"
    by blast
  have "z \<notin> set (concat (bs[i := remove1 z (bs ! i)]))"
  proof
    assume "z \<in> set (concat (bs[i := remove1 z (bs ! i)]))"
    then obtain B where B: "B \<in> set (bs[i := remove1 z (bs ! i)])" "z \<in> set B" by auto
    then obtain j where j: "j < length (bs[i := remove1 z (bs ! i)])" "bs[i := remove1 z (bs ! i)] ! j = B"
      by (auto simp: in_set_conv_nth)
    with wis' have "j < nat N" by (simp add: wheel_is_def)
    from bucket_isD(1) [OF wheel_isD [OF wis' this]] j B(2) dseg_live [of tw_next tw_prev "tw_mem w'" _ _ B _ z]
    have "\<exists>t. tw_mem w' z = Some t" by simp
    with gone show False by simp
  qed
  with r wis' gone f show "\<exists>w'. wheel_del_timer (Some z) w = Inr w'
         \<and> wheel_is w' (bs[i := remove1 z (bs ! i)])
         \<and> z \<notin> set (concat (bs[i := remove1 z (bs ! i)]))
         \<and> tw_mem w' z = None \<and> tw_fired w' = tw_fired w"
    by blast
qed


lemma tick_fires_due_timers_example:
  "lst_is lst_two [0, 1] \<and> sorted (lst_keys lst_two [0, 1])
   \<and> (\<exists>l'. lst_tick 12 lst_two = Some (Inr l') \<and> ut_fired l' = [Invoke 0 1 100]
         \<and> lst_is l' [1] \<and> ut_mem l' 0 = None)
   \<and> (\<exists>l'. lst_del_timer (Some 1) lst_two = Inr l' \<and> lst_is l' [0] \<and> ut_mem l' 1 = None
         \<and> ut_fired l' = [])
   \<and> heap_good heap_two
   \<and> (\<exists>h' es. heap_tick 3 heap_two = Inr h' \<and> ht_fired h' = es \<and> set es = {Invoke 1 2 8}
         \<and> distinct (map ev_timer es) \<and> mset (heap_live h') = {#Some 0#} \<and> ht_mem h' 1 = None
         \<and> heap_good h')
   \<and> (\<exists>h'. heap_del_timer (Some 1) heap_two = Inr h' \<and> heap_good h'
         \<and> heap_event h' (Some 1) = [] \<and> heap_live h' = [Some 1, Some 0])
   \<and> wheel_is wheel_two wheel_two_buckets
   \<and> (\<exists>w'. wheel_tick wheel_two = Some (Inr w') \<and> tw_fired w' = [Invoke 0 7 42]
         \<and> wheel_is w' (wheel_two_buckets[3 := [1]]) \<and> cur_slot w' = 4
         \<and> tw_mem w' 0 = None \<and> tw_rot w' 1 = 0 \<and> tw_cb w' 1 = Func 8)
   \<and> (\<exists>w'. wheel_del_timer (Some 0) wheel_two = Inr w'
         \<and> wheel_is w' (wheel_two_buckets[3 := [1]]) \<and> tw_mem w' 0 = None \<and> tw_fired w' = [])"
proof -
  have l: "lst_is lst_two [0, 1] \<and> sorted (lst_keys lst_two [0, 1])
      \<and> (\<forall>a\<in>set [0, 1]. lst_due 12 lst_two a \<longrightarrow> (\<exists>f. lst_cb lst_two a = Func f))"
    by (simp add: lst_two_def lst_is_def dseg_Cons lst_keys_def lst_cb_def)
  have lv: "filter (lst_due 12 lst_two) [0, 1] = [0]" "filter (\<lambda>a. \<not> lst_due 12 lst_two a) [0, 1] = [1]"
    "lst_event lst_two 0 = [Invoke 0 1 100]" "ut_fired lst_two = []"
    by (simp_all add: lst_due_def lst_expire_def lst_event_def lst_cb_def lst_two_def)
  have g: "heap_good heap_two"
    by (simp add: heap_two_def heap_pred_eval upt_rec)
  have hv: "heap_live heap_two = [Some 1, Some 0]" "heap_due 3 heap_two (Some 1)"
    "\<not> heap_due 3 heap_two (Some 0)" "heap_event heap_two (Some 1) = [Invoke 1 2 8]"
    "ht_fired heap_two = []" "ht_mem heap_two 1 \<noteq> None"
    by (simp_all add: heap_two_def heap_live_def heap_due_def key_def heap_event_def heap_cb_def)
  have hs: "{p \<in> set [Some 1, Some 0]. heap_due 3 heap_two p} = {Some (1::nat)}"
    using hv(2,3) by auto
  have bk: "wheel_two_buckets ! 3 = [0, 1]" "length wheel_two_buckets = 60"
    "nat (cur_slot wheel_two) = 3" "3 < nat N"
    by (simp_all add: wheel_two_buckets_def wheel_two_def N_def)
  have wi: "wheel_is wheel_two wheel_two_buckets"
    by (auto simp: wheel_is_def bucket_is_def list_all_iff nth_list_update dseg_Cons N_def
          wheel_two_def wheel_two_buckets_def tw_slot_def)
  have wv: "tw_due wheel_two 0" "\<not> tw_due wheel_two 1" "tw_cb wheel_two 0 = Func 7"
    "tw_event wheel_two 0 = [Invoke 0 7 42]" "tw_fired wheel_two = []" "cur_slot wheel_two = 3"
    "tw_rot wheel_two 1 = 1" "tw_cb wheel_two 1 = Func 8"
    by (simp_all add: tw_due_def tw_rot_def tw_cb_def tw_event_def wheel_two_def)
  have wc: "wheel_is wheel_two wheel_two_buckets
      \<and> (\<forall>a\<in>set (wheel_two_buckets ! nat (cur_slot wheel_two)). tw_due wheel_two a
            \<longrightarrow> (\<exists>f. tw_cb wheel_two a = Func f))"
    using wi wv by (simp add: bk)
  note T = tick_fires_due_timers [where l = lst_two and as = "[0, 1]" and cur = 12 and x = 1
      and h = heap_two and now = 3 and y = 1 and w = wheel_two and bs = wheel_two_buckets
      and i = 3 and z = 0]
  have t1: "\<exists>l'. lst_tick 12 lst_two = Some (Inr l') \<and> ut_fired l' = [Invoke 0 1 100]
         \<and> lst_is l' [1] \<and> ut_mem l' 0 = None"
    using T [THEN conjunct1, THEN mp, OF l] lv by auto
  have t2: "\<exists>l'. lst_del_timer (Some 1) lst_two = Inr l' \<and> lst_is l' [0] \<and> ut_mem l' 1 = None
         \<and> ut_fired l' = []"
    using T [THEN conjunct2, THEN conjunct1] l lv by auto
  have t3: "\<exists>h' es. heap_tick 3 heap_two = Inr h' \<and> ht_fired h' = es \<and> set es = {Invoke 1 2 8}
         \<and> distinct (map ev_timer es) \<and> mset (heap_live h') = {#Some 0#} \<and> ht_mem h' 1 = None
         \<and> heap_good h'"
    using T [THEN conjunct2, THEN conjunct2, THEN conjunct1, THEN mp, OF g] hv hs by auto
  have t4: "\<exists>h'. heap_del_timer (Some 1) heap_two = Inr h' \<and> heap_good h'
         \<and> heap_event h' (Some 1) = [] \<and> heap_live h' = [Some 1, Some 0]"
    using T [THEN conjunct2, THEN conjunct2, THEN conjunct2, THEN conjunct1] g hv by auto
  have t5: "\<exists>w'. wheel_tick wheel_two = Some (Inr w') \<and> tw_fired w' = [Invoke 0 7 42]
         \<and> wheel_is w' (wheel_two_buckets[3 := [1]]) \<and> cur_slot w' = 4
         \<and> tw_mem w' 0 = None \<and> tw_rot w' 1 = 0 \<and> tw_cb w' 1 = Func 8"
    using T [THEN conjunct2, THEN conjunct2, THEN conjunct2, THEN conjunct2, THEN conjunct1,
        THEN mp, OF wc] wv bk
    by (auto simp: N_def)
  have t6: "\<exists>w'. wheel_del_timer (Some 0) wheel_two = Inr w'
         \<and> wheel_is w' (wheel_two_buckets[3 := [1]]) \<and> tw_mem w' 0 = None \<and> tw_fired w' = []"
    using T [THEN conjunct2, THEN conjunct2, THEN conjunct2, THEN conjunct2, THEN conjunct2] wi wv bk
    by auto
  from l g wi t1 t2 t3 t4 t5 t6 show ?thesis by blast
qed

text \<open>
  C7 (fails on the code). The claim: for every strategy \<^verbatim>\<open>tick\<close> invokes the callback of
  every due timer exactly once. A timer's callback may be null. The heap's \<^verbatim>\<open>tick\<close>
  tests it (\<^verbatim>\<open>if(array[0]->cb_func)\<close>) and goes on to the next record; the \<^verbatim>\<open>tick\<close> of
  the sorted list and of the wheel call \<^verbatim>\<open>tmp->cb_func(tmp->user_data)\<close> with no test.
  With three due timers of which the second has a null callback, the list's and the
  wheel's \<^verbatim>\<open>tick\<close> end in the call through the null pointer, and the due timer behind it
  is never fired; the heap's \<^verbatim>\<open>tick\<close> on the same three timers fires the first and the
  third and returns.
\<close>

theorem tick_null_callback_stops:
  "map_option (map_sum id (\<lambda>l. (lst_is l [0, 1, 2], lst_keys l [0, 1, 2], map (lst_cb l) [0, 1, 2],
       list_all (lst_due 40 l) [0, 1, 2]))) lst_null_cb_scenario
     = Some (Inr (True, [10, 20, 30], [Func 1, Null, Func 3], True))
   \<and> lst_then lst_null_cb_scenario (lst_tick 40) = Some (Inl BadCall)
   \<and> map_option (map_sum id (\<lambda>w. (cur_slot w, slots w ! 1, map (tw_slot w) [2, 1, 0],
       map (tw_cb w) [2, 1, 0], list_all (tw_due w) [2, 1, 0], tw_fired w))) (wheel_null_cb_ticks 1)
     = Some (Inr (1, Some 2, [1, 1, 1], [Func 3, Null, Func 1], True, []))
   \<and> wheel_null_cb_ticks 2 = Some (Inl BadCall)
   \<and> map_sum id ht_fired
        (heap_run [Schedule 10 (Func 1) 100, Schedule 20 Null 200, Schedule 30 (Func 3) 300, Tick 40]
           heap4)
     = Inr [Invoke 0 1 100, Invoke 2 3 300]"
proof -
  have a: "map_option (map_sum id (\<lambda>l. (lst_is l [0, 1, 2], lst_keys l [0, 1, 2], map (lst_cb l) [0, 1, 2],
       list_all (lst_due 40 l) [0, 1, 2]))) lst_null_cb_scenario
     = Some (Inr (True, [10, 20, 30], [Func 1, Null, Func 3], True))"
    by (simp add: lst_null_cb_scenario_def lst_eval dseg_Cons lst_cb_def lst_due_def lst_expire_def)
  have b: "lst_then lst_null_cb_scenario (lst_tick 40) = Some (Inl BadCall)"
    by (simp add: lst_null_cb_scenario_def lst_eval)
  have c: "map_option (map_sum id (\<lambda>w. (cur_slot w, slots w ! 1, map (tw_slot w) [2, 1, 0],
       map (tw_cb w) [2, 1, 0], list_all (tw_due w) [2, 1, 0], tw_fired w))) (wheel_null_cb_ticks 1)
     = Some (Inr (1, Some 2, [1, 1, 1], [Func 3, Null, Func 1], True, []))"
    by (simp add: wheel_null_cb_ticks_def wheel_null_cb_scenario_def wheel_then_def
          wheel_schedule_def wheel_eval eval_nat_numeral tw_slot_def tw_cb_def tw_due_def tw_rot_def)
  have d: "wheel_null_cb_ticks 2 = Some (Inl BadCall)"
    by (simp add: wheel_null_cb_ticks_def wheel_null_cb_scenario_def wheel_then_def
          wheel_schedule_def wheel_eval eval_nat_numeral)
  have e: "map_sum id ht_fired
        (heap_run [Schedule 10 (Func 1) 100, Schedule 20 Null 200, Schedule 30 (Func 3) 300, Tick 40]
           heap4)
     = Inr [Invoke 0 1 100, Invoke 2 3 300]"
    by (simp add: heap4_def heap_eval eval_nat_numeral)
  from a b c d e show ?thesis by (intro conjI)
qed

end
